theory Spec2Isabelle
  imports
    Main
    "HOL-Library.AList"
    "HOL-Library.Char_ord"
    "HOL-Library.List_Lexorder"
    "HOL-Library.Sublist"
begin

section \<open>Expense tracker: the record store, the filter and the aggregations\<close>

text \<open>
  The program is a single Python module, \<^verbatim>\<open>app.py\<close>.  A row is a Python list of strings
  (\<^verbatim>\<open>List[List[str]]\<close> for the whole store), kept in a CSV file.  Python strings are
  modelled as \<^typ>\<open>string\<close>, a character being a code point below 256; the store and
  the export are also given over strings of all code points, where writing a file can
  fail.  An exception that the source does not catch is a value \<open>Inl e\<close> of the result.
\<close>

datatype error =
  ValueError | IndexError | CsvError | EOFError | FileNotFoundError | UnicodeEncodeError

subsection \<open>Strings\<close>

text \<open>\<^verbatim>\<open>str.lower()\<close>: on code points below 256 the upper-case letters are A to Z and
  the Latin-1 capitals 0xC0 to 0xDE without the multiplication sign 0xD7; each is mapped
  32 code points up.\<close>

definition lower_char :: "char \<Rightarrow> char" where
  "lower_char c =
     (let n = (of_char c :: nat) in
      if (65 \<le> n \<and> n \<le> 90) \<or> (192 \<le> n \<and> n \<le> 222 \<and> n \<noteq> 215)
      then char_of (n + 32) else c)"

definition lower :: "string \<Rightarrow> string" where
  "lower s = map lower_char s"

text \<open>\<^verbatim>\<open>sep.join(xs)\<close>.\<close>

fun join :: "string \<Rightarrow> string list \<Rightarrow> string" where
  "join sep [] = []"
| "join sep [x] = x"
| "join sep (x # y # ys) = x @ sep @ join sep (y # ys)"

text \<open>Truthiness of an \<^verbatim>\<open>Optional[str]\<close>: \<^verbatim>\<open>None\<close> and the empty string are false.\<close>

fun truthy :: "string option \<Rightarrow> bool" where
  "truthy None = False"
| "truthy (Some s) = (s \<noteq> [])"

text \<open>The tuple assignment \<^verbatim>\<open>d, amt, cat, desc = r\<close> raises \<^verbatim>\<open>ValueError\<close> unless the row
  has exactly four fields.\<close>

fun unpack4 :: "string list \<Rightarrow> error + (string \<times> string \<times> string \<times> string)" where
  "unpack4 [d, amt, cat, desc] = Inr (d, amt, cat, desc)"
| "unpack4 _ = Inl ValueError"

subsection \<open>Whitespace, \<^verbatim>\<open>str.strip()\<close> and \<^verbatim>\<open>str.replace\<close>\<close>

text \<open>\<^verbatim>\<open>str.strip()\<close> removes the characters for which \<^verbatim>\<open>str.isspace()\<close> holds: below 256
  these are 9 to 13, 28 to 32, 133 and 160.  The conversions \<^verbatim>\<open>float()\<close> and \<^verbatim>\<open>int()\<close>
  skip a smaller set at both ends of their argument: 9 to 13, 32, 133 and 160.\<close>

definition is_space :: "char \<Rightarrow> bool" where
  "is_space c =
     (let n = (of_char c :: nat) in
      (9 \<le> n \<and> n \<le> 13) \<or> (28 \<le> n \<and> n \<le> 32) \<or> n = 133 \<or> n = 160)"

definition number_space :: "char \<Rightarrow> bool" where
  "number_space c =
     (let n = (of_char c :: nat) in (9 \<le> n \<and> n \<le> 13) \<or> n = 32 \<or> n = 133 \<or> n = 160)"

definition strip_with :: "(char \<Rightarrow> bool) \<Rightarrow> string \<Rightarrow> string" where
  "strip_with sp s = rev (dropWhile sp (rev (dropWhile sp s)))"

definition strip :: "string \<Rightarrow> string" where
  "strip s = strip_with is_space s"

text \<open>\<^verbatim>\<open>s.replace(",", ".")\<close>.\<close>

definition replace_comma :: "string \<Rightarrow> string" where
  "replace_comma s = map (\<lambda>c. if c = CHR '','' then CHR ''.'' else c) s"

subsection \<open>Decimal digits\<close>

definition is_digit :: "char \<Rightarrow> bool" where
  "is_digit c = (CHR ''0'' \<le> c \<and> c \<le> CHR ''9'')"

definition nat_of_digits :: "string \<Rightarrow> int" where
  "nat_of_digits s = foldl (\<lambda>n c. 10 * n + (of_char c - 48)) 0 s"

definition digit_char :: "int \<Rightarrow> char" where
  "digit_char d = char_of (48 + d)"

function show_nat :: "int \<Rightarrow> string" where
  "show_nat n = (if n < 10 then [digit_char n] else show_nat (n div 10) @ [digit_char (n mod 10)])"
  by pat_completeness auto

termination
  by (relation "measure nat") auto

declare show_nat.simps [simp del]

fun strip_sign :: "string \<Rightarrow> bool \<times> string" where
  "strip_sign [] = (False, [])"
| "strip_sign (c # cs) =
     (if c = CHR ''-'' then (True, cs) else if c = CHR ''+'' then (False, cs) else (False, c # cs))"

subsection \<open>Floating-point numbers\<close>

text \<open>
  A Python \<^verbatim>\<open>float\<close> is an IEEE 754 binary64 number.  Mantissas, numerators and
  denominators are integers that are never negative.  \<open>Finite s m e\<close> stands for the number
  \<open>m * 2 ^ e\<close>, negated when \<open>s\<close> holds, with \<open>m < 2 ^ 53\<close> and \<open>- 1074 \<le> e \<le> 971\<close>, where
  \<open>2 ^ 52 \<le> m\<close> unless \<open>e = - 1074\<close> (zero is \<open>Finite s 0 (- 1074)\<close>).  All operations round
  to nearest, ties to even, as the hardware and Python's conversions do.
\<close>

datatype pyfloat = Finite bool int int | Infinity bool | NaN

text \<open>\<open>p / q\<close> rounded to the nearest integer, ties to even.\<close>

definition round_half_even :: "int \<Rightarrow> int \<Rightarrow> int" where
  "round_half_even p q =
     (let d = p div q; r = p mod q in
      if 2 * r < q then d else if q < 2 * r then d + 1 else if even d then d else d + 1)"

function bit_length :: "int \<Rightarrow> int" where
  "bit_length n = (if n \<le> 0 then 0 else 1 + bit_length (n div 2))"
  by pat_completeness auto

termination
  by (relation "measure nat") auto

declare bit_length.simps [simp del]

text \<open>The integer part of the binary logarithm of \<open>p / q\<close>, for positive \<open>p\<close> and \<open>q\<close>.\<close>

definition floor_log2 :: "int \<Rightarrow> int \<Rightarrow> int" where
  "floor_log2 p q =
     (let k = bit_length p - bit_length q in
      if (if 0 \<le> k then q * 2 ^ nat k \<le> p else q \<le> p * 2 ^ nat (- k)) then k else k - 1)"

text \<open>The binary64 number nearest to \<open>p / q\<close> (negated when \<open>s\<close> holds); too large a value
  gives infinity.\<close>

definition to_double :: "bool \<Rightarrow> int \<Rightarrow> int \<Rightarrow> pyfloat" where
  "to_double s p q =
     (if p = 0 then Finite s 0 (- 1074)
      else
        let e = max (floor_log2 p q - 52) (- 1074);
            m = (if 0 \<le> e then round_half_even p (q * 2 ^ nat e)
                 else round_half_even (p * 2 ^ nat (- e)) q);
            e' = (if m = 2 ^ 53 then e + 1 else e);
            m' = (if m = 2 ^ 53 then 2 ^ 52 else m)
        in if 971 < e' then Infinity s else Finite s m' e')"

text \<open>The numbers nearest to \<open>n * 2 ^ e\<close> and to \<open>n * 10 ^ x\<close>.\<close>

definition scaled :: "bool \<Rightarrow> int \<Rightarrow> int \<Rightarrow> pyfloat" where
  "scaled s n e = (if 0 \<le> e then to_double s (n * 2 ^ nat e) 1 else to_double s n (2 ^ nat (- e)))"

definition decimal :: "bool \<Rightarrow> int \<Rightarrow> int \<Rightarrow> pyfloat" where
  "decimal s n x = (if 0 \<le> x then to_double s (n * 10 ^ nat x) 1 else to_double s n (10 ^ nat (- x)))"

text \<open>The literal \<^verbatim>\<open>0.0\<close>.\<close>

definition zero :: pyfloat where
  "zero = Finite False 0 (- 1074)"

text \<open>\<^verbatim>\<open>x + y\<close> on floats.\<close>

fun float_add :: "pyfloat \<Rightarrow> pyfloat \<Rightarrow> pyfloat" where
  "float_add NaN y = NaN"
| "float_add (Infinity s) NaN = NaN"
| "float_add (Finite s m e) NaN = NaN"
| "float_add (Infinity s) (Infinity t) = (if s = t then Infinity s else NaN)"
| "float_add (Infinity s) (Finite t n f) = Infinity s"
| "float_add (Finite s m e) (Infinity t) = Infinity t"
| "float_add (Finite s m e) (Finite t n f) =
     (let g = min e f;
          a = m * 2 ^ nat (e - g);
          b = n * 2 ^ nat (f - g);
          c = (if s then - a else a) + (if t then - b else b)
      in if c = 0 then Finite (s \<and> t) 0 (- 1074) else scaled (c < 0) \<bar>c\<bar> g)"

subsubsection \<open>\<^verbatim>\<open>float(s)\<close>\<close>

text \<open>
  \<^verbatim>\<open>float(s)\<close> on a string: underscores may stand between digits only and are removed;
  white space at both ends is skipped; then an optional sign is followed by \<^verbatim>\<open>inf\<close>,
  \<^verbatim>\<open>infinity\<close> or \<^verbatim>\<open>nan\<close> in any case, or by a decimal number with an optional exponent.
  Anything else raises \<^verbatim>\<open>ValueError\<close>, which is the result \<open>None\<close>.
\<close>

fun underscores_ok :: "char option \<Rightarrow> string \<Rightarrow> bool" where
  "underscores_ok prev [] = (prev \<noteq> Some CHR ''_'')"
| "underscores_ok prev (c # cs) =
     (if c = CHR ''_'' then
        (case prev of None \<Rightarrow> False | Some p \<Rightarrow> is_digit p \<and> underscores_ok (Some c) cs)
      else if prev = Some CHR ''_'' \<and> \<not> is_digit c then False
      else underscores_ok (Some c) cs)"

definition parse_number :: "bool \<Rightarrow> string \<Rightarrow> pyfloat option" where
  "parse_number neg s =
     (let ip = takeWhile is_digit s;
          r1 = dropWhile is_digit s;
          point = (r1 \<noteq> [] \<and> hd r1 = CHR ''.'');
          fp = (if point then takeWhile is_digit (tl r1) else []);
          r2 = (if point then dropWhile is_digit (tl r1) else r1);
          n = nat_of_digits (ip @ fp)
      in if ip = [] \<and> fp = [] then None
         else case r2 of
           [] \<Rightarrow> Some (decimal neg n (- int (length fp)))
         | c # t \<Rightarrow>
             if c = CHR ''e'' \<or> c = CHR ''E'' then
               (case strip_sign t of
                  (eneg, d) \<Rightarrow>
                    if d \<noteq> [] \<and> list_all is_digit d then
                      Some (decimal neg n
                        ((if eneg then - nat_of_digits d else nat_of_digits d)
                          - int (length fp)))
                    else None)
             else None)"

definition py_float :: "string \<Rightarrow> pyfloat option" where
  "py_float s =
     (if CHR ''_'' \<in> set s \<and> \<not> underscores_ok None s then None
      else
        case strip_sign (strip_with number_space (filter (\<lambda>c. c \<noteq> CHR ''_'') s)) of
          (neg, r) \<Rightarrow>
            if lower r = ''inf'' \<or> lower r = ''infinity'' then Some (Infinity neg)
            else if lower r = ''nan'' then Some NaN
            else parse_number neg r)"

subsubsection \<open>Formatting with two decimals and \<^verbatim>\<open>round(x, 2)\<close>\<close>

text \<open>The number \<open>m * 2 ^ e\<close> in hundredths, rounded to the nearest integer, ties to even.\<close>

definition cents :: "int \<Rightarrow> int \<Rightarrow> int" where
  "cents m e = (if 0 \<le> e then m * 2 ^ nat e * 100 else round_half_even (m * 100) (2 ^ nat (- e)))"

text \<open>The format \<^verbatim>\<open>.2f\<close>.\<close>

definition format_2f :: "pyfloat \<Rightarrow> string" where
  "format_2f x =
     (case x of
        NaN \<Rightarrow> ''nan''
      | Infinity s \<Rightarrow> (if s then ''-inf'' else ''inf'')
      | Finite s m e \<Rightarrow>
          (let c = cents m e in
           (if s then ''-'' else []) @ show_nat (c div 100) @ ''.'' @
           [digit_char (c mod 100 div 10), digit_char (c mod 10)]))"

definition round2 :: "pyfloat \<Rightarrow> pyfloat" where
  "round2 x = (case x of Finite s m e \<Rightarrow> to_double s (cents m e) 100 | _ \<Rightarrow> x)"

subsubsection \<open>\<^verbatim>\<open>str(x)\<close>\<close>

text \<open>
  \<^verbatim>\<open>str(x)\<close> of a float is \<^verbatim>\<open>repr(x)\<close>: the shortest decimal string that \<^verbatim>\<open>float\<close> reads back
  as \<open>x\<close>, the nearest to \<open>x\<close> among the shortest ones; it is printed with an exponent when
  the decimal point lies more than 16 places right or 4 or more places left of the first
  digit, and otherwise in positional notation with at least one fractional digit.
\<close>

text \<open>The \<open>k\<close> with \<open>10 ^ (k - 1) \<le> p / q < 10 ^ k\<close>.\<close>

definition decimal_point :: "int \<Rightarrow> int \<Rightarrow> int" where
  "decimal_point p q =
     (if q \<le> p then int (length (show_nat (p div q)))
      else
        let f = q div p; d = length (show_nat f) in
        if f = 10 ^ (d - 1) \<and> q mod p = 0 then 1 - int (d - 1) else 1 - int d)"

text \<open>The decimal \<open>d * 10 ^ j\<close> of \<open>n\<close> digits that reads back as \<open>x\<close>, the number \<open>p / q\<close>
  with the sign \<open>s\<close>, if there is one.\<close>

definition candidate :: "pyfloat \<Rightarrow> bool \<Rightarrow> int \<Rightarrow> int \<Rightarrow> int \<Rightarrow> nat \<Rightarrow> (int \<times> int) option" where
  "candidate x s p q k n =
     (let j = k - int n;
          a = (if 0 \<le> j then p else p * 10 ^ nat (- j));
          b = (if 0 \<le> j then q * 10 ^ nat j else q);
          lo = a div b;
          hi = lo + 1;
          oklo = (decimal s lo j = x);
          okhi = (decimal s hi j = x)
      in if oklo \<and> okhi then Some (round_half_even a b, j)
         else if oklo then Some (lo, j)
         else if okhi then Some (hi, j)
         else None)"

definition shortest :: "pyfloat \<Rightarrow> bool \<Rightarrow> int \<Rightarrow> int \<Rightarrow> int \<times> int" where
  "shortest x s p q =
     (let k = decimal_point p q in
      case List.map_filter (candidate x s p q k) [1..<18] of
        c # cs \<Rightarrow> c
      | [] \<Rightarrow> (round_half_even (if 0 \<le> k - 17 then p else p * 10 ^ nat (17 - k))
                 (if 0 \<le> k - 17 then q * 10 ^ nat (k - 17) else q), k - 17))"

function strip_zeros :: "int \<Rightarrow> int \<Rightarrow> int \<times> int" where
  "strip_zeros d x = (if 0 < d \<and> d mod 10 = 0 then strip_zeros (d div 10) (x + 1) else (d, x))"
  by pat_completeness auto

termination
  by (relation "measure (\<lambda>(d, x). nat d)") auto

declare strip_zeros.simps [simp del]

definition float_repr :: "pyfloat \<Rightarrow> string" where
  "float_repr x =
     (case x of
        NaN \<Rightarrow> ''nan''
      | Infinity s \<Rightarrow> (if s then ''-inf'' else ''inf'')
      | Finite s m e \<Rightarrow>
          (if m = 0 then (if s then ''-0.0'' else ''0.0'')
           else
             case shortest x s (if 0 \<le> e then m * 2 ^ nat e else m)
                    (if 0 \<le> e then 1 else 2 ^ nat (- e)) of
               (d0, x0) \<Rightarrow>
                 (case strip_zeros d0 x0 of
                    (d, ex) \<Rightarrow>
                      (let digits = show_nat d;
                           n = length digits;
                           dp = int n + ex;
                           x10 = dp - 1;
                           es = show_nat \<bar>x10\<bar>
                       in (if s then ''-'' else []) @
                          (if dp \<le> - 4 \<or> 16 < dp then
                             take 1 digits @ (if 1 < n then ''.'' @ drop 1 digits else []) @
                             ''e'' @ (if x10 < 0 then ''-'' else ''+'') @
                             (if length es < 2 then ''0'' @ es else es)
                           else if dp \<le> 0 then ''0.'' @ replicate (nat (- dp)) CHR ''0'' @ digits
                           else if int n \<le> dp then
                             digits @ replicate (nat (dp - int n)) CHR ''0'' @ ''.0''
                           else take (nat dp) digits @ ''.'' @ drop (nat dp) digits)))))"

subsection \<open>\<^verbatim>\<open>int(s)\<close>\<close>

text \<open>
  \<^verbatim>\<open>int(s)\<close> on a string: white space at both ends is skipped, an optional sign is followed
  by decimal digits, between which single underscores may stand.  More than 4300 digits
  are refused.  Every failure is a \<^verbatim>\<open>ValueError\<close>, the result \<open>None\<close>.
\<close>

fun digit_groups :: "string \<Rightarrow> bool" where
  "digit_groups [] = False"
| "digit_groups [c] = is_digit c"
| "digit_groups (c # d # cs) =
     (is_digit c \<and> (if d = CHR ''_'' then digit_groups cs else digit_groups (d # cs)))"

definition py_int :: "string \<Rightarrow> int option" where
  "py_int s =
     (case strip_sign (strip_with number_space s) of
        (neg, r) \<Rightarrow>
          (let d = filter (\<lambda>c. c \<noteq> CHR ''_'') r in
           if \<not> digit_groups r \<or> 4300 < length d then None
           else Some (if neg then - nat_of_digits d else nat_of_digits d)))"

subsection \<open>The CSV format: \<^verbatim>\<open>csv.writer\<close>\<close>

text \<open>
  The program uses Python's \<^verbatim>\<open>csv\<close> module with its default dialect: the delimiter is a
  comma, the quote character a double quote that is doubled inside a quoted field, the
  line terminator is CR LF, and a field is quoted only when it holds the delimiter, the
  quote character, CR or LF.  A row that consists of one empty field is written as a pair
  of quotes.
\<close>

abbreviation CR :: char where "CR \<equiv> CHR 0x0D"
abbreviation LF :: char where "LF \<equiv> CHR 0x0A"
abbreviation QUOTE :: char where "QUOTE \<equiv> CHR 0x22"
abbreviation COMMA :: char where "COMMA \<equiv> CHR 0x2C"

definition special :: "char \<Rightarrow> bool" where
  "special c = (c = COMMA \<or> c = QUOTE \<or> c = CR \<or> c = LF)"

fun double_quotes :: "string \<Rightarrow> string" where
  "double_quotes [] = []"
| "double_quotes (c # cs) =
     (if c = QUOTE then QUOTE # QUOTE # double_quotes cs else c # double_quotes cs)"

definition csv_field :: "string \<Rightarrow> string" where
  "csv_field s = (if list_ex special s then QUOTE # double_quotes s @ [QUOTE] else s)"

definition writerow :: "string list \<Rightarrow> string" where
  "writerow row =
     (if row = [[]] then [QUOTE, QUOTE] else join [COMMA] (map csv_field row)) @ [CR, LF]"

definition writerows :: "string list list \<Rightarrow> string" where
  "writerows rows = concat (map writerow rows)"

subsection \<open>The CSV format: \<^verbatim>\<open>csv.reader\<close>\<close>

text \<open>
  The reader is the state machine of the module's C source, for the default dialect (no
  escape character, not strict).  It is fed the lines of the file; after the characters
  of a line it is fed an end-of-line mark, written \<open>None\<close>.  A field may hold at most
  \<^verbatim>\<open>csv.field_size_limit()\<close> characters, 131072 by default; a longer one raises
  \<^verbatim>\<open>_csv.Error\<close>.
\<close>

datatype parser_state =
  START_RECORD | START_FIELD | IN_FIELD | IN_QUOTED_FIELD | QUOTE_IN_QUOTED_FIELD | EAT_CRNL

text \<open>The reader's \<^verbatim>\<open>fields\<close> are \<open>row_fields\<close> here.\<close>

record reader =
  state :: parser_state
  row_fields :: "string list"
  field :: string

definition field_limit :: int where
  "field_limit = 131072"

definition parse_reset :: reader where
  "parse_reset = \<lparr>state = START_RECORD, row_fields = [], field = []\<rparr>"

definition parse_save_field :: "reader \<Rightarrow> reader" where
  "parse_save_field rd = rd\<lparr>row_fields := row_fields rd @ [field rd], field := []\<rparr>"

definition parse_add_char :: "reader \<Rightarrow> char \<Rightarrow> error + reader" where
  "parse_add_char rd c =
     (if field_limit \<le> int (length (field rd)) then Inl CsvError
      else Inr (rd\<lparr>field := field rd @ [c]\<rparr>))"

text \<open>The case \<^verbatim>\<open>START_FIELD\<close>, into which the case \<^verbatim>\<open>START_RECORD\<close> falls through.\<close>

definition start_field :: "reader \<Rightarrow> char option \<Rightarrow> error + reader" where
  "start_field rd c =
     (case c of
        None \<Rightarrow> Inr ((parse_save_field rd)\<lparr>state := START_RECORD\<rparr>)
      | Some ch \<Rightarrow>
          if ch = LF \<or> ch = CR then Inr ((parse_save_field rd)\<lparr>state := EAT_CRNL\<rparr>)
          else if ch = QUOTE then Inr (rd\<lparr>state := IN_QUOTED_FIELD\<rparr>)
          else if ch = COMMA then Inr (parse_save_field rd)
          else (case parse_add_char rd ch of
                  Inl e \<Rightarrow> Inl e
                | Inr rd' \<Rightarrow> Inr (rd'\<lparr>state := IN_FIELD\<rparr>)))"

definition parse_process_char :: "reader \<Rightarrow> char option \<Rightarrow> error + reader" where
  "parse_process_char rd c =
     (case state rd of
        START_RECORD \<Rightarrow>
          (if c = None then Inr rd
           else if c = Some LF \<or> c = Some CR then Inr (rd\<lparr>state := EAT_CRNL\<rparr>)
           else start_field (rd\<lparr>state := START_FIELD\<rparr>) c)
      | START_FIELD \<Rightarrow> start_field rd c
      | IN_FIELD \<Rightarrow>
          (case c of
             None \<Rightarrow> Inr ((parse_save_field rd)\<lparr>state := START_RECORD\<rparr>)
           | Some ch \<Rightarrow>
               if ch = LF \<or> ch = CR then Inr ((parse_save_field rd)\<lparr>state := EAT_CRNL\<rparr>)
               else if ch = COMMA then Inr ((parse_save_field rd)\<lparr>state := START_FIELD\<rparr>)
               else parse_add_char rd ch)
      | IN_QUOTED_FIELD \<Rightarrow>
          (case c of
             None \<Rightarrow> Inr rd
           | Some ch \<Rightarrow>
               if ch = QUOTE then Inr (rd\<lparr>state := QUOTE_IN_QUOTED_FIELD\<rparr>)
               else parse_add_char rd ch)
      | QUOTE_IN_QUOTED_FIELD \<Rightarrow>
          (case c of
             None \<Rightarrow> Inr ((parse_save_field rd)\<lparr>state := START_RECORD\<rparr>)
           | Some ch \<Rightarrow>
               if ch = QUOTE then
                 (case parse_add_char rd ch of
                    Inl e \<Rightarrow> Inl e
                  | Inr rd' \<Rightarrow> Inr (rd'\<lparr>state := IN_QUOTED_FIELD\<rparr>))
               else if ch = COMMA then Inr ((parse_save_field rd)\<lparr>state := START_FIELD\<rparr>)
               else if ch = LF \<or> ch = CR then Inr ((parse_save_field rd)\<lparr>state := EAT_CRNL\<rparr>)
               else (case parse_add_char rd ch of
                       Inl e \<Rightarrow> Inl e
                     | Inr rd' \<Rightarrow> Inr (rd'\<lparr>state := IN_FIELD\<rparr>)))
      | EAT_CRNL \<Rightarrow>
          (case c of
             None \<Rightarrow> Inr (rd\<lparr>state := START_RECORD\<rparr>)
           | Some ch \<Rightarrow> if ch = LF \<or> ch = CR then Inr rd else Inl CsvError))"

text \<open>
  The file is opened with \<^verbatim>\<open>newline=""\<close>: iterating over it gives its lines with their
  endings kept, a line ending after LF, after CR LF, and after a CR that no LF follows.
\<close>

definition ends_line :: "char \<Rightarrow> string \<Rightarrow> bool" where
  "ends_line c cs = (c = LF \<or> (c = CR \<and> (case cs of [] \<Rightarrow> True | d # ds \<Rightarrow> d \<noteq> LF)))"

fun split_lines :: "string \<Rightarrow> string list" where
  "split_lines [] = []"
| "split_lines (c # cs) =
     (if ends_line c cs then [c] # split_lines cs
      else case split_lines cs of [] \<Rightarrow> [[c]] | l # ls \<Rightarrow> (c # l) # ls)"

text \<open>One line: its characters, then the end-of-line mark.\<close>

fun parse_line :: "reader \<Rightarrow> string \<Rightarrow> error + reader" where
  "parse_line rd [] = parse_process_char rd None"
| "parse_line rd (c # cs) =
     (case parse_process_char rd (Some c) of
        Inl e \<Rightarrow> Inl e
      | Inr rd' \<Rightarrow> parse_line rd' cs)"

text \<open>
  \<^verbatim>\<open>list(csv.reader(f))\<close>: a record is complete when the state after a line is
  \<^verbatim>\<open>START_RECORD\<close>; then the reader is reset.  At the end of the input a field that has been
  begun, or an open quoted field, still gives a record.
\<close>

definition cons_row :: "string list \<Rightarrow> error + string list list \<Rightarrow> error + string list list" where
  "cons_row r res = (case res of Inl e \<Rightarrow> Inl e | Inr rs \<Rightarrow> Inr (r # rs))"

fun read_records :: "reader \<Rightarrow> string list \<Rightarrow> error + string list list" where
  "read_records rd [] =
     (if field rd \<noteq> [] \<or> state rd = IN_QUOTED_FIELD
      then Inr [row_fields (parse_save_field rd)] else Inr [])"
| "read_records rd (l # ls) =
     (case parse_line rd l of
        Inl e \<Rightarrow> Inl e
      | Inr rd' \<Rightarrow>
          if state rd' = START_RECORD then cons_row (row_fields rd') (read_records parse_reset ls)
          else read_records rd' ls)"

definition csv_reader :: "string \<Rightarrow> error + string list list" where
  "csv_reader content = read_records parse_reset (split_lines content)"

subsection \<open>Filters\<close>

text \<open>The nested function \<^verbatim>\<open>in_range\<close> of \<^verbatim>\<open>filter_rows\<close>; the comparison of strings is
  lexicographic by code point.\<close>

definition in_range :: "string option \<Rightarrow> string option \<Rightarrow> string \<Rightarrow> bool" where
  "in_range start_date end_date d =
     (let ok_start = (case start_date of None \<Rightarrow> True | Some s \<Rightarrow> d \<ge> s);
          ok_end = (case end_date of None \<Rightarrow> True | Some e \<Rightarrow> d \<le> e)
      in ok_start \<and> ok_end)"

text \<open>The three tests of the loop body, each of which ends in \<^verbatim>\<open>continue\<close>.\<close>

definition skip_category :: "string option \<Rightarrow> string \<Rightarrow> bool" where
  "skip_category category cat =
     (case category of None \<Rightarrow> False
      | Some c \<Rightarrow> truthy category \<and> lower cat \<noteq> lower c)"

definition skip_text :: "string option \<Rightarrow> string list \<Rightarrow> bool" where
  "skip_text text r =
     (case text of None \<Rightarrow> False
      | Some t \<Rightarrow> truthy text \<and> \<not> sublist (lower t) (lower (join '' '' r)))"

fun filter_loop ::
  "string option \<Rightarrow> string option \<Rightarrow> string option \<Rightarrow> string option \<Rightarrow>
   string list list \<Rightarrow> string list list \<Rightarrow> error + string list list" where
  "filter_loop category start_date end_date text out [] = Inr out"
| "filter_loop category start_date end_date text out (r # rows) =
     (case unpack4 r of
        Inl e \<Rightarrow> Inl e
      | Inr (d, amt, cat, desc) \<Rightarrow>
          if skip_category category cat then
            filter_loop category start_date end_date text out rows
          else if \<not> in_range start_date end_date d then
            filter_loop category start_date end_date text out rows
          else if skip_text text r then
            filter_loop category start_date end_date text out rows
          else filter_loop category start_date end_date text (out @ [r]) rows)"

definition filter_rows ::
  "string list list \<Rightarrow> string option \<Rightarrow> string option \<Rightarrow> string option \<Rightarrow> string option \<Rightarrow>
   error + string list list" where
  "filter_rows rows category start_date end_date text =
     filter_loop category start_date end_date text [] rows"

subsection \<open>The store: paths, constants and the bootstrap\<close>

text \<open>
  The file system is a map from paths to file contents; a path that is not in its domain
  does not exist.  Directories are not modelled, and a file content is the text that
  Python reads or writes.  Every code point below 256 has an encoding in UTF-8, so that
  in this part, where a character is such a code point, writing a text to a file cannot
  fail; the store over all code points, further down, has the write that fails.
\<close>

type_synonym fs = "string \<rightharpoonup> string"

definition CSV_DIR :: string where
  "CSV_DIR = ''data''"

definition REPORTS_DIR :: string where
  "REPORTS_DIR = CSV_DIR @ ''/'' @ ''reports''"

definition CSV :: string where
  "CSV = CSV_DIR @ ''/'' @ ''expenses.csv''"

definition HEADERS :: "string list" where
  "HEADERS = [''Date'', ''Amount'', ''Category'', ''Description'']"

definition ensure_dirs_and_csv :: "fs \<Rightarrow> fs" where
  "ensure_dirs_and_csv files =
     (let need_header = (case files CSV of None \<Rightarrow> True | Some content \<Rightarrow> content = [])
      in if need_header then files(CSV \<mapsto> writerow HEADERS) else files)"

text \<open>\<^verbatim>\<open>read_rows()\<close>, always called with \<^verbatim>\<open>include_header=False\<close>.  The result is the value
  or the exception, and the file system after the call.\<close>

definition read_rows :: "fs \<Rightarrow> (error + string list list) \<times> fs" where
  "read_rows files =
     (let files' = ensure_dirs_and_csv files in
      case files' CSV of
        None \<Rightarrow> (Inl FileNotFoundError, files')
      | Some content \<Rightarrow>
          (case csv_reader content of
             Inl e \<Rightarrow> (Inl e, files')
           | Inr rows \<Rightarrow>
               (case rows of
                  [] \<Rightarrow> (Inr rows, files')
                | r # rest \<Rightarrow> if r = HEADERS then (Inr rest, files') else (Inr rows, files'))))"

definition write_rows :: "string list list \<Rightarrow> fs \<Rightarrow> fs" where
  "write_rows rows files = files(CSV \<mapsto> writerow HEADERS @ writerows rows)"

subsection \<open>Prompts\<close>

text \<open>
  The standard input is the list of the lines that \<^verbatim>\<open>input()\<close> will return, without their
  line ends; \<^verbatim>\<open>input()\<close> on the empty list raises \<^verbatim>\<open>EOFError\<close>.  What is printed is not
  modelled, except for the message that ends a command, which is its \<open>outcome\<close>.
  \<^verbatim>\<open>datetime.date.fromisoformat\<close> followed by \<^verbatim>\<open>isoformat()\<close> is a parameter
  \<open>fromisoformat\<close> (it is \<open>None\<close> where Python raises \<^verbatim>\<open>ValueError\<close>), and so is the date of
  today.
\<close>

datatype outcome =
    NoExpenses
  | InvalidIndex
  | NotANumber
  | Deleted "string list"
  | Updated
  | Saved
  | Table "string list list"
  | OverallTotal string
  | NothingToExport
  | Exported nat string

definition input_with_default :: "string \<Rightarrow> string \<Rightarrow> string" where
  "input_with_default line dflt = (let raw = strip line in if raw \<noteq> [] then raw else dflt)"

definition format_money :: "string \<Rightarrow> string" where
  "format_money x = (case py_float x of Some v \<Rightarrow> format_2f v | None \<Rightarrow> x)"

fun ask_date :: "(string \<Rightarrow> string option) \<Rightarrow> string \<Rightarrow> string list \<Rightarrow> error + string \<times> string list" where
  "ask_date fromisoformat today [] = Inl EOFError"
| "ask_date fromisoformat today (line # rest) =
     (let raw = strip line in
      if raw = [] then Inr (today, rest)
      else case fromisoformat raw of
        Some d \<Rightarrow> Inr (d, rest)
      | None \<Rightarrow> ask_date fromisoformat today rest)"

fun ask_amount :: "string list \<Rightarrow> error + pyfloat \<times> string list" where
  "ask_amount [] = Inl EOFError"
| "ask_amount (line # rest) =
     (let raw = replace_comma (strip line) in
      case py_float raw of
        Some x \<Rightarrow> Inr (round2 x, rest)
      | None \<Rightarrow> ask_amount rest)"

subsection \<open>Table of expenses\<close>

text \<open>\<^verbatim>\<open>format_expense_table\<close> with \<^verbatim>\<open>show_index=True\<close>: the rows handed to the layout
  function, which is not modelled.  \<^verbatim>\<open>r[1]\<close> raises \<^verbatim>\<open>IndexError\<close> on a row with fewer than
  two fields.\<close>

fun display_lines :: "nat \<Rightarrow> string list list \<Rightarrow> error + string list list" where
  "display_lines idx [] = Inr []"
| "display_lines idx (r # rows) =
     (if length r < 2 then Inl IndexError
      else case display_lines (Suc idx) rows of
        Inl e \<Rightarrow> Inl e
      | Inr ls \<Rightarrow> Inr ((show_nat (int idx) # r[1 := format_money (r ! 1)]) # ls))"

definition format_expense_table :: "string list list \<Rightarrow> error + string list list" where
  "format_expense_table rows =
     (if rows = [] then Inr []
      else case display_lines 0 rows of
        Inl e \<Rightarrow> Inl e
      | Inr ls \<Rightarrow> Inr ((''#'' # HEADERS) # ls))"

subsection \<open>Core actions\<close>

text \<open>\<^verbatim>\<open>add_expense\<close>: the file is opened for appending, so the row is written after what
  the file holds; the amount is a float, which \<^verbatim>\<open>csv.writer\<close> writes as \<^verbatim>\<open>str(amt)\<close>.\<close>

definition add_expense ::
  "(string \<Rightarrow> string option) \<Rightarrow> string \<Rightarrow> fs \<Rightarrow> string list \<Rightarrow> (error + outcome) \<times> fs" where
  "add_expense fromisoformat today files stdin =
     (case ask_date fromisoformat today stdin of
        Inl e \<Rightarrow> (Inl e, files)
      | Inr (date, stdin1) \<Rightarrow>
          (case ask_amount stdin1 of
             Inl e \<Rightarrow> (Inl e, files)
           | Inr (amt, stdin2) \<Rightarrow>
               (case stdin2 of
                  [] \<Rightarrow> (Inl EOFError, files)
                | line3 # stdin3 \<Rightarrow>
                    (case stdin3 of
                       [] \<Rightarrow> (Inl EOFError, files)
                     | line4 # stdin4 \<Rightarrow>
                         (let cat = (if strip line3 = [] then ''General'' else strip line3);
                              desc = strip line4;
                              old = (case files CSV of None \<Rightarrow> [] | Some content \<Rightarrow> content)
                          in (Inr Saved,
                              files(CSV \<mapsto> old @ writerow [date, float_repr amt, cat, desc])))))))"

definition delete_last_entry :: "fs \<Rightarrow> (error + outcome) \<times> fs" where
  "delete_last_entry files =
     (case read_rows files of
        (Inl e, files') \<Rightarrow> (Inl e, files')
      | (Inr rows, files') \<Rightarrow>
          if rows = [] then (Inr NoExpenses, files')
          else (Inr (Deleted (last rows)), write_rows (butlast rows) files'))"

definition delete_by_index :: "fs \<Rightarrow> string list \<Rightarrow> (error + outcome) \<times> fs" where
  "delete_by_index files stdin =
     (case read_rows files of
        (Inl e, files') \<Rightarrow> (Inl e, files')
      | (Inr rows, files') \<Rightarrow>
          if rows = [] then (Inr NoExpenses, files')
          else case format_expense_table rows of
            Inl e \<Rightarrow> (Inl e, files')
          | Inr table \<Rightarrow>
              (case stdin of
                 [] \<Rightarrow> (Inl EOFError, files')
               | line # rest \<Rightarrow>
                   (case py_int (strip line) of
                      None \<Rightarrow> (Inr NotANumber, files')
                    | Some idx \<Rightarrow>
                        if idx < 0 \<or> int (length rows) \<le> idx then (Inr InvalidIndex, files')
                        else (Inr (Deleted (rows ! nat idx)),
                              write_rows (take (nat idx) rows @ drop (Suc (nat idx)) rows) files'))))"

text \<open>The two prompt loops of \<^verbatim>\<open>edit_by_index\<close>.\<close>

fun ask_new_date :: "(string \<Rightarrow> string option) \<Rightarrow> string \<Rightarrow> string list \<Rightarrow> error + string \<times> string list" where
  "ask_new_date fromisoformat date [] = Inl EOFError"
| "ask_new_date fromisoformat date (line # rest) =
     (let new_date = input_with_default line date in
      case fromisoformat new_date of
        Some d \<Rightarrow> Inr (new_date, rest)
      | None \<Rightarrow> ask_new_date fromisoformat date rest)"

fun ask_new_amt :: "string \<Rightarrow> string list \<Rightarrow> error + string \<times> string list" where
  "ask_new_amt amt [] = Inl EOFError"
| "ask_new_amt amt (line # rest) =
     (let amt_raw = replace_comma (input_with_default line (format_money amt)) in
      case py_float amt_raw of
        Some x \<Rightarrow> Inr (format_2f (round2 x), rest)
      | None \<Rightarrow> ask_new_amt amt rest)"

definition edit_by_index ::
  "(string \<Rightarrow> string option) \<Rightarrow> fs \<Rightarrow> string list \<Rightarrow> (error + outcome) \<times> fs" where
  "edit_by_index fromisoformat files stdin =
     (case read_rows files of
        (Inl e, files') \<Rightarrow> (Inl e, files')
      | (Inr rows, files') \<Rightarrow>
          if rows = [] then (Inr NoExpenses, files')
          else case format_expense_table rows of
            Inl e \<Rightarrow> (Inl e, files')
          | Inr table \<Rightarrow>
              (case stdin of
                 [] \<Rightarrow> (Inl EOFError, files')
               | line # stdin1 \<Rightarrow>
                   (case py_int (strip line) of
                      None \<Rightarrow> (Inr NotANumber, files')
                    | Some idx \<Rightarrow>
                        if idx < 0 \<or> int (length rows) \<le> idx then (Inr InvalidIndex, files')
                        else case unpack4 (rows ! nat idx) of
                          Inl e \<Rightarrow> (Inl e, files')
                        | Inr (date, amt, cat, desc) \<Rightarrow>
                            (case ask_new_date fromisoformat date stdin1 of
                               Inl e \<Rightarrow> (Inl e, files')
                             | Inr (new_date, stdin2) \<Rightarrow>
                                 (case ask_new_amt amt stdin2 of
                                    Inl e \<Rightarrow> (Inl e, files')
                                  | Inr (new_amt, stdin3) \<Rightarrow>
                                      (case stdin3 of
                                         [] \<Rightarrow> (Inl EOFError, files')
                                       | line4 # stdin4 \<Rightarrow>
                                           (case stdin4 of
                                              [] \<Rightarrow> (Inl EOFError, files')
                                            | line5 # stdin5 \<Rightarrow>
                                                (let new_cat = input_with_default line4
                                                       (if cat = [] then ''General'' else cat);
                                                     new_desc = input_with_default line5 desc
                                                 in (Inr Updated,
                                                     write_rows
                                                       (rows[nat idx := [new_date, new_amt, new_cat, new_desc]])
                                                       files')))))))))"

subsection \<open>Summaries\<close>

text \<open>
  The dictionary \<^verbatim>\<open>totals\<close> is an association list in insertion order:
  \<^verbatim>\<open>totals.get(k, 0.0)\<close> is \<open>dict_get\<close> and the assignment \<^verbatim>\<open>totals[k] = v\<close> is
  \<open>AList.update\<close>.  The three summaries run the same loop and differ in the key only: the
  category, the date, and the first seven characters of the date.  A row that does not
  unpack into four fields raises \<^verbatim>\<open>ValueError\<close> outside the \<^verbatim>\<open>try\<close>; an amount that
  \<^verbatim>\<open>float\<close> refuses is skipped by \<^verbatim>\<open>continue\<close>.
\<close>

definition dict_get :: "(string \<times> pyfloat) list \<Rightarrow> string \<Rightarrow> pyfloat" where
  "dict_get totals k = (case map_of totals k of None \<Rightarrow> zero | Some v \<Rightarrow> v)"

fun totals_loop ::
  "(string \<Rightarrow> string \<Rightarrow> string) \<Rightarrow> (string \<times> pyfloat) list \<Rightarrow> string list list \<Rightarrow>
   error + (string \<times> pyfloat) list" where
  "totals_loop key totals [] = Inr totals"
| "totals_loop key totals (r # rows) =
     (case unpack4 r of
        Inl e \<Rightarrow> Inl e
      | Inr (date, amt, cat, desc) \<Rightarrow>
          (case py_float amt of
             None \<Rightarrow> totals_loop key totals rows
           | Some x \<Rightarrow>
               totals_loop key
                 (AList.update (key date cat) (float_add (dict_get totals (key date cat)) x) totals)
                 rows))"

text \<open>The key of a row, from its date and its category.\<close>

definition category_key :: "string \<Rightarrow> string \<Rightarrow> string" where
  "category_key date cat = cat"

definition date_key :: "string \<Rightarrow> string \<Rightarrow> string" where
  "date_key date cat = date"

definition month_key :: "string \<Rightarrow> string \<Rightarrow> string" where
  "month_key date cat = take 7 date"

text \<open>The rows handed to the layout function: the header, then a row for each key in
  ascending order with its tot in the format \<^verbatim>\<open>.2f\<close>.\<close>

definition summary_table :: "string \<Rightarrow> (string \<times> pyfloat) list \<Rightarrow> string list list" where
  "summary_table title totals =
     [title, ''Total''] # map (\<lambda>k. [k, format_2f (dict_get totals k)]) (sort (map fst totals))"

definition summarize ::
  "(string \<Rightarrow> string \<Rightarrow> string) \<Rightarrow> string \<Rightarrow> fs \<Rightarrow> (error + outcome) \<times> fs" where
  "summarize key title files =
     (case read_rows files of
        (Inl e, files') \<Rightarrow> (Inl e, files')
      | (Inr rows, files') \<Rightarrow>
          if rows = [] then (Inr NoExpenses, files')
          else case totals_loop key [] rows of
            Inl e \<Rightarrow> (Inl e, files')
          | Inr totals \<Rightarrow> (Inr (Table (summary_table title totals)), files'))"

definition summarize_by_category :: "fs \<Rightarrow> (error + outcome) \<times> fs" where
  "summarize_by_category files = summarize category_key ''Category'' files"

definition summarize_by_date :: "fs \<Rightarrow> (error + outcome) \<times> fs" where
  "summarize_by_date files = summarize date_key ''Date'' files"

definition summarize_by_month :: "fs \<Rightarrow> (error + outcome) \<times> fs" where
  "summarize_by_month files = summarize month_key ''Month (YYYY-MM)'' files"

fun total_loop :: "pyfloat \<Rightarrow> string list list \<Rightarrow> error + pyfloat" where
  "total_loop tot [] = Inr tot"
| "total_loop tot (r # rows) =
     (case unpack4 r of
        Inl e \<Rightarrow> Inl e
      | Inr (date, amt, cat, desc) \<Rightarrow>
          (case py_float amt of
             None \<Rightarrow> total_loop tot rows
           | Some x \<Rightarrow> total_loop (float_add tot x) rows))"

definition show_total :: "fs \<Rightarrow> (error + outcome) \<times> fs" where
  "show_total files =
     (case read_rows files of
        (Inl e, files') \<Rightarrow> (Inl e, files')
      | (Inr rows, files') \<Rightarrow>
          if rows = [] then (Inr NoExpenses, files')
          else case total_loop zero rows of
            Inl e \<Rightarrow> (Inl e, files')
          | Inr tot \<Rightarrow> (Inr (OverallTotal (format_2f tot)), files'))"

subsection \<open>Export: the time stamp\<close>

text \<open>The wall clock \<^verbatim>\<open>datetime.now()\<close> is a parameter.  \<^verbatim>\<open>strftime("%Y%m%d_%H%M%S")\<close>
  pads the month, the day, the hour, the minute and the second to two digits; the year
  is printed as it is.  \<^verbatim>\<open>export_rows\<close> itself writes a file, and stands with the store over
  all code points.\<close>

record datetime =
  year :: int
  month :: int
  day :: int
  hour :: int
  minute :: int
  second :: int

definition two_digits :: "int \<Rightarrow> string" where
  "two_digits n = [digit_char (n div 10), digit_char (n mod 10)]"

definition strftime :: "datetime \<Rightarrow> string" where
  "strftime t =
     show_nat (year t) @ two_digits (month t) @ two_digits (day t) @ ''_'' @
     two_digits (hour t) @ two_digits (minute t) @ two_digits (second t)"

subsection \<open>The filter as the specification words it\<close>



subsection \<open>The reader as a function of the text\<close>

text \<open>
  For the proofs, the reader is restated over the text of the file instead of its list of
  lines: after a character that ends a line, and after the last character of the text, it
  is fed the end-of-line mark.  Lemma \<open>read_records_eq_run\<close> shows that this is what
  \<open>read_records\<close> computes on the lines of the text.
\<close>

fun run :: "reader \<Rightarrow> string \<Rightarrow> error + string list list" where
  "run rd [] = read_records rd []"
| "run rd (c # cs) =
     (case parse_process_char rd (Some c) of
        Inl e \<Rightarrow> Inl e
      | Inr rd' \<Rightarrow>
          if ends_line c cs \<or> cs = [] then
            (case parse_process_char rd' None of
               Inl e \<Rightarrow> Inl e
             | Inr rd'' \<Rightarrow>
                 if state rd'' = START_RECORD
                 then cons_row (row_fields rd'') (run parse_reset cs)
                 else run rd'' cs)
          else run rd' cs)"

text \<open>The fields of all rows fit into the field size limit of the reader.\<close>

definition within_limit :: "string list list \<Rightarrow> bool" where
  "within_limit rows = list_all (list_all (\<lambda>f. int (length f) \<le> field_limit)) rows"

text \<open>The invariant of the reader: no field, saved or under way, exceeds the limit.\<close>

definition reader_ok :: "reader \<Rightarrow> bool" where
  "reader_ok rd =
     (list_all (\<lambda>f. int (length f) \<le> field_limit) (row_fields rd) \<and>
      int (length (field rd)) \<le> field_limit)"

subsection \<open>The store of the scenarios\<close>

text \<open>The three records of the specification's scenarios, as rows of strings.\<close>

definition example_store :: "string list list" where
  "example_store =
     [[''2025-01-05'', ''12.50'', ''Food'', ''lunch''],
      [''2025-01-20'', ''40.00'', ''Transport'', ''bus pass''],
      [''2025-02-01'', ''9.99'', ''Food'', ''snack'']]"

subsection \<open>Aggregation as the specification words it\<close>

text \<open>A record whose amount field can be parsed as a number.\<close>

fun parseable :: "string list \<Rightarrow> bool" where
  "parseable [d, amt, cat, desc] = (py_float amt \<noteq> None)"
| "parseable r = False"

subsection \<open>Time stamps as the specification words them\<close>

text \<open>A wall-clock time with a four-digit year, and the chronological order of two such
  times at the granularity of a second.\<close>

definition valid_datetime :: "datetime \<Rightarrow> bool" where
  "valid_datetime t =
     (1000 \<le> year t \<and> year t \<le> 9999 \<and> 1 \<le> month t \<and> month t \<le> 12 \<and>
      1 \<le> day t \<and> day t \<le> 31 \<and> 0 \<le> hour t \<and> hour t \<le> 23 \<and>
      0 \<le> minute t \<and> minute t \<le> 59 \<and> 0 \<le> second t \<and> second t \<le> 59)"

definition earlier :: "datetime \<Rightarrow> datetime \<Rightarrow> bool" where
  "earlier s t =
     (year s < year t \<or> (year s = year t \<and>
       (month s < month t \<or> (month s = month t \<and>
         (day s < day t \<or> (day s = day t \<and>
           (hour s < hour t \<or> (hour s = hour t \<and>
             (minute s < minute t \<or> (minute s = minute t \<and> second s < second t))))))))))"

subsection \<open>The store over all code points\<close>

text \<open>
  A Python string is a sequence of code points, the numbers from 0 to \<^verbatim>\<open>0x10FFFF\<close>.  The
  files are opened with \<^verbatim>\<open>encoding="utf-8"\<close>, and UTF-8 has no encoding for the surrogates,
  \<^verbatim>\<open>0xD800\<close> to \<^verbatim>\<open>0xDFFF\<close>: \<^verbatim>\<open>f.write\<close> of a line that holds one raises
  \<^verbatim>\<open>UnicodeEncodeError\<close>, and nothing of that line is written.  (A surrogate reaches a
  Python string, for one, from a standard input that is read with the error handler
  \<^verbatim>\<open>surrogateescape\<close>.)  So that this failure is a value, the writer, the reader and the
  store are given once more, over strings of code points of any size.  The definitions
  are those of the first part, line for line, and carry the suffix \<open>_u\<close>; the lemmas
  \<open>write_rows_u_ustore\<close> and \<open>read_rows_u_ustore\<close> show that on strings of code points
  below 256 this store is the store of the first part, in which therefore no write fails.
  A file is the text that it decodes to; a file that is not valid UTF-8 is not modelled.
\<close>

type_synonym code_point = int
type_synonym ustring = "code_point list"
type_synonym ufs = "string \<rightharpoonup> ustring"

text \<open>A string of the first part as a string of code points.\<close>

definition ustr :: "string \<Rightarrow> ustring" where
  "ustr s = map of_char s"

definition surrogate :: "code_point \<Rightarrow> bool" where
  "surrogate c = (0xD800 \<le> c \<and> c \<le> 0xDFFF)"

text \<open>The code points that the codec \<^verbatim>\<open>utf-8\<close> encodes.\<close>

definition encodable :: "code_point \<Rightarrow> bool" where
  "encodable c = (0 \<le> c \<and> c \<le> 0x10FFFF \<and> \<not> surrogate c)"

definition encodable_rows :: "ustring list list \<Rightarrow> bool" where
  "encodable_rows rows = list_all (list_all (list_all encodable)) rows"

subsubsection \<open>\<^verbatim>\<open>csv.writer\<close>\<close>

abbreviation (input) CR_u :: code_point where "CR_u \<equiv> 0x0D"
abbreviation (input) LF_u :: code_point where "LF_u \<equiv> 0x0A"
abbreviation (input) QUOTE_u :: code_point where "QUOTE_u \<equiv> 0x22"
abbreviation (input) COMMA_u :: code_point where "COMMA_u \<equiv> 0x2C"

fun join_u :: "ustring \<Rightarrow> ustring list \<Rightarrow> ustring" where
  "join_u sep [] = []"
| "join_u sep [x] = x"
| "join_u sep (x # y # ys) = x @ sep @ join_u sep (y # ys)"

definition special_u :: "code_point \<Rightarrow> bool" where
  "special_u c = (c = COMMA_u \<or> c = QUOTE_u \<or> c = CR_u \<or> c = LF_u)"

fun double_quotes_u :: "ustring \<Rightarrow> ustring" where
  "double_quotes_u [] = []"
| "double_quotes_u (c # cs) =
     (if c = QUOTE_u then QUOTE_u # QUOTE_u # double_quotes_u cs else c # double_quotes_u cs)"

definition csv_field_u :: "ustring \<Rightarrow> ustring" where
  "csv_field_u s = (if list_ex special_u s then QUOTE_u # double_quotes_u s @ [QUOTE_u] else s)"

definition writerow_u :: "ustring list \<Rightarrow> ustring" where
  "writerow_u row =
     (if row = [[]] then [QUOTE_u, QUOTE_u] else join_u [COMMA_u] (map csv_field_u row)) @ [CR_u, LF_u]"

definition writerows_u :: "ustring list list \<Rightarrow> ustring" where
  "writerows_u rows = concat (map writerow_u rows)"

subsubsection \<open>\<^verbatim>\<open>csv.reader\<close>\<close>

record reader_u =
  state_u :: parser_state
  row_fields_u :: "ustring list"
  field_u :: ustring

definition parse_reset_u :: reader_u where
  "parse_reset_u = \<lparr>state_u = START_RECORD, row_fields_u = [], field_u = []\<rparr>"

definition parse_save_field_u :: "reader_u \<Rightarrow> reader_u" where
  "parse_save_field_u rd = rd\<lparr>row_fields_u := row_fields_u rd @ [field_u rd], field_u := []\<rparr>"

definition parse_add_char_u :: "reader_u \<Rightarrow> code_point \<Rightarrow> error + reader_u" where
  "parse_add_char_u rd c =
     (if field_limit \<le> int (length (field_u rd)) then Inl CsvError
      else Inr (rd\<lparr>field_u := field_u rd @ [c]\<rparr>))"

definition start_field_u :: "reader_u \<Rightarrow> code_point option \<Rightarrow> error + reader_u" where
  "start_field_u rd c =
     (case c of
        None \<Rightarrow> Inr ((parse_save_field_u rd)\<lparr>state_u := START_RECORD\<rparr>)
      | Some ch \<Rightarrow>
          if ch = LF_u \<or> ch = CR_u then Inr ((parse_save_field_u rd)\<lparr>state_u := EAT_CRNL\<rparr>)
          else if ch = QUOTE_u then Inr (rd\<lparr>state_u := IN_QUOTED_FIELD\<rparr>)
          else if ch = COMMA_u then Inr (parse_save_field_u rd)
          else (case parse_add_char_u rd ch of
                  Inl e \<Rightarrow> Inl e
                | Inr rd' \<Rightarrow> Inr (rd'\<lparr>state_u := IN_FIELD\<rparr>)))"

definition parse_process_char_u :: "reader_u \<Rightarrow> code_point option \<Rightarrow> error + reader_u" where
  "parse_process_char_u rd c =
     (case state_u rd of
        START_RECORD \<Rightarrow>
          (if c = None then Inr rd
           else if c = Some LF_u \<or> c = Some CR_u then Inr (rd\<lparr>state_u := EAT_CRNL\<rparr>)
           else start_field_u (rd\<lparr>state_u := START_FIELD\<rparr>) c)
      | START_FIELD \<Rightarrow> start_field_u rd c
      | IN_FIELD \<Rightarrow>
          (case c of
             None \<Rightarrow> Inr ((parse_save_field_u rd)\<lparr>state_u := START_RECORD\<rparr>)
           | Some ch \<Rightarrow>
               if ch = LF_u \<or> ch = CR_u then Inr ((parse_save_field_u rd)\<lparr>state_u := EAT_CRNL\<rparr>)
               else if ch = COMMA_u then Inr ((parse_save_field_u rd)\<lparr>state_u := START_FIELD\<rparr>)
               else parse_add_char_u rd ch)
      | IN_QUOTED_FIELD \<Rightarrow>
          (case c of
             None \<Rightarrow> Inr rd
           | Some ch \<Rightarrow>
               if ch = QUOTE_u then Inr (rd\<lparr>state_u := QUOTE_IN_QUOTED_FIELD\<rparr>)
               else parse_add_char_u rd ch)
      | QUOTE_IN_QUOTED_FIELD \<Rightarrow>
          (case c of
             None \<Rightarrow> Inr ((parse_save_field_u rd)\<lparr>state_u := START_RECORD\<rparr>)
           | Some ch \<Rightarrow>
               if ch = QUOTE_u then
                 (case parse_add_char_u rd ch of
                    Inl e \<Rightarrow> Inl e
                  | Inr rd' \<Rightarrow> Inr (rd'\<lparr>state_u := IN_QUOTED_FIELD\<rparr>))
               else if ch = COMMA_u then Inr ((parse_save_field_u rd)\<lparr>state_u := START_FIELD\<rparr>)
               else if ch = LF_u \<or> ch = CR_u then Inr ((parse_save_field_u rd)\<lparr>state_u := EAT_CRNL\<rparr>)
               else (case parse_add_char_u rd ch of
                       Inl e \<Rightarrow> Inl e
                     | Inr rd' \<Rightarrow> Inr (rd'\<lparr>state_u := IN_FIELD\<rparr>)))
      | EAT_CRNL \<Rightarrow>
          (case c of
             None \<Rightarrow> Inr (rd\<lparr>state_u := START_RECORD\<rparr>)
           | Some ch \<Rightarrow> if ch = LF_u \<or> ch = CR_u then Inr rd else Inl CsvError))"

definition ends_line_u :: "code_point \<Rightarrow> ustring \<Rightarrow> bool" where
  "ends_line_u c cs = (c = LF_u \<or> (c = CR_u \<and> (case cs of [] \<Rightarrow> True | d # ds \<Rightarrow> d \<noteq> LF_u)))"

fun split_lines_u :: "ustring \<Rightarrow> ustring list" where
  "split_lines_u [] = []"
| "split_lines_u (c # cs) =
     (if ends_line_u c cs then [c] # split_lines_u cs
      else case split_lines_u cs of [] \<Rightarrow> [[c]] | l # ls \<Rightarrow> (c # l) # ls)"

fun parse_line_u :: "reader_u \<Rightarrow> ustring \<Rightarrow> error + reader_u" where
  "parse_line_u rd [] = parse_process_char_u rd None"
| "parse_line_u rd (c # cs) =
     (case parse_process_char_u rd (Some c) of
        Inl e \<Rightarrow> Inl e
      | Inr rd' \<Rightarrow> parse_line_u rd' cs)"

definition cons_row_u :: "ustring list \<Rightarrow> error + ustring list list \<Rightarrow> error + ustring list list" where
  "cons_row_u r res = (case res of Inl e \<Rightarrow> Inl e | Inr rs \<Rightarrow> Inr (r # rs))"

fun read_records_u :: "reader_u \<Rightarrow> ustring list \<Rightarrow> error + ustring list list" where
  "read_records_u rd [] =
     (if field_u rd \<noteq> [] \<or> state_u rd = IN_QUOTED_FIELD
      then Inr [row_fields_u (parse_save_field_u rd)] else Inr [])"
| "read_records_u rd (l # ls) =
     (case parse_line_u rd l of
        Inl e \<Rightarrow> Inl e
      | Inr rd' \<Rightarrow>
          if state_u rd' = START_RECORD then cons_row_u (row_fields_u rd') (read_records_u parse_reset_u ls)
          else read_records_u rd' ls)"

definition csv_reader_u :: "ustring \<Rightarrow> error + ustring list list" where
  "csv_reader_u content = read_records_u parse_reset_u (split_lines_u content)"

text \<open>The reader over the text of the file, for the proofs.\<close>

fun run_u :: "reader_u \<Rightarrow> ustring \<Rightarrow> error + ustring list list" where
  "run_u rd [] = read_records_u rd []"
| "run_u rd (c # cs) =
     (case parse_process_char_u rd (Some c) of
        Inl e \<Rightarrow> Inl e
      | Inr rd' \<Rightarrow>
          if ends_line_u c cs \<or> cs = [] then
            (case parse_process_char_u rd' None of
               Inl e \<Rightarrow> Inl e
             | Inr rd'' \<Rightarrow>
                 if state_u rd'' = START_RECORD
                 then cons_row_u (row_fields_u rd'') (run_u parse_reset_u cs)
                 else run_u rd'' cs)
          else run_u rd' cs)"

definition within_limit_u :: "ustring list list \<Rightarrow> bool" where
  "within_limit_u rows = list_all (list_all (\<lambda>f. int (length f) \<le> field_limit)) rows"

subsubsection \<open>The files\<close>

definition HEADERS_u :: "ustring list" where
  "HEADERS_u = map ustr HEADERS"

text \<open>\<^verbatim>\<open>f.write(line)\<close> on a file whose text so far is \<open>written\<close>: the line is encoded as a
  whole before anything of it is written.\<close>

definition file_write :: "ustring \<Rightarrow> ustring \<Rightarrow> error + ustring" where
  "file_write written line =
     (if list_all encodable line then Inr (written @ line) else Inl UnicodeEncodeError)"

text \<open>\<^verbatim>\<open>w.writerows(rows)\<close> writes row after row; the result is paired with the text of the
  file at the end, which on an exception holds the rows written before it.\<close>

fun writerows_to :: "ustring \<Rightarrow> ustring list list \<Rightarrow> (error + unit) \<times> ustring" where
  "writerows_to written [] = (Inr (), written)"
| "writerows_to written (r # rs) =
     (case file_write written (writerow_u r) of
        Inl e \<Rightarrow> (Inl e, written)
      | Inr written' \<Rightarrow> writerows_to written' rs)"

text \<open>
  The block \<^verbatim>\<open>with open(path, "w", newline="", encoding="utf-8") as f\<close> of \<^verbatim>\<open>write_rows\<close>
  and of \<^verbatim>\<open>export_rows\<close>: opening the file empties it, then the header and the rows are
  written, and leaving the block closes the file with what has been written, also when
  an exception leaves it.
\<close>

definition write_csv :: "ustring list list \<Rightarrow> (error + unit) \<times> ustring" where
  "write_csv rows =
     (case file_write [] (writerow_u HEADERS_u) of
        Inl e \<Rightarrow> (Inl e, [])
      | Inr written \<Rightarrow> writerows_to written rows)"

definition ensure_dirs_and_csv_u :: "ufs \<Rightarrow> ufs" where
  "ensure_dirs_and_csv_u files =
     (let need_header = (case files CSV of None \<Rightarrow> True | Some content \<Rightarrow> content = [])
      in if need_header then files(CSV \<mapsto> writerow_u HEADERS_u) else files)"

definition read_rows_u :: "ufs \<Rightarrow> (error + ustring list list) \<times> ufs" where
  "read_rows_u files =
     (let files' = ensure_dirs_and_csv_u files in
      case files' CSV of
        None \<Rightarrow> (Inl FileNotFoundError, files')
      | Some content \<Rightarrow>
          (case csv_reader_u content of
             Inl e \<Rightarrow> (Inl e, files')
           | Inr rows \<Rightarrow>
               (case rows of
                  [] \<Rightarrow> (Inr rows, files')
                | r # rest \<Rightarrow> if r = HEADERS_u then (Inr rest, files') else (Inr rows, files'))))"

definition write_rows_u :: "ustring list list \<Rightarrow> ufs \<Rightarrow> (error + unit) \<times> ufs" where
  "write_rows_u rows files =
     (case write_csv rows of (res, content) \<Rightarrow> (res, files(CSV \<mapsto> content)))"

text \<open>
  \<^verbatim>\<open>export_rows\<close>: on no rows it prints \<^verbatim>\<open>Nothing to export.\<close> and returns; otherwise it
  writes the header and the rows to a file of the reports directory that is named after
  the time, and prints the number of rows and the path.
\<close>

definition export_rows ::
  "datetime \<Rightarrow> ufs \<Rightarrow> ustring list list \<Rightarrow> (error + outcome) \<times> ufs" where
  "export_rows now files rows =
     (if rows = [] then (Inr NothingToExport, files)
      else
        let ts = strftime now;
            path = REPORTS_DIR @ ''/'' @ ts @ ''_export.csv''
        in case write_csv rows of
             (Inl e, content) \<Rightarrow> (Inl e, files(path \<mapsto> content))
           | (Inr u, content) \<Rightarrow>
               (Inr (Exported (length rows) path), files(path \<mapsto> content)))"

text \<open>
  A string of the first part of this theory, read as a string of code points, and with it
  a state of the reader, a result of the reader and a file system.
\<close>

definition ureader :: "reader \<Rightarrow> reader_u" where
  "ureader rd =
     \<lparr>state_u = state rd, row_fields_u = map ustr (row_fields rd), field_u = ustr (field rd)\<rparr>"

definition uresult :: "error + string list list \<Rightarrow> error + ustring list list" where
  "uresult res = (case res of Inl e \<Rightarrow> Inl e | Inr rows \<Rightarrow> Inr (map (map ustr) rows))"

definition ustore :: "fs \<Rightarrow> ufs" where
  "ustore files = (\<lambda>path. map_option ustr (files path))"

section \<open>Properties\<close>

subsection \<open>Filter\<close>


lemma lower_Nil [simp]: "lower [] = []"
  by (simp add: lower_def)

lemma lower_Nil_iff [simp]: "lower s = [] \<longleftrightarrow> s = []"
  by (simp add: lower_def)





lemma filter_loop_cong:
  assumes "\<And>x. skip_category c1 x = skip_category c2 x"
    and "\<And>r. skip_text t1 r = skip_text t2 r"
  shows "filter_loop c1 start_date end_date t1 acc rows =
         filter_loop c2 start_date end_date t2 acc rows"
proof (induction rows arbitrary: acc)
  case Nil
  show ?case by simp
next
  case (Cons r rows)
  show ?case
    by (simp add: assms Cons.IH split: sum.splits prod.splits)
qed





text \<open>
  \<^bold>\<open>C10\<close>: the empty string as the category or as the text criterion behaves as an absent
  criterion.  Hence no supplied category criterion selects a row by its empty category
  (a non-empty criterion excludes it), and an empty text search excludes nothing.
\<close>

theorem filter_rows_empty_string_criteria:
  "filter_rows rows (Some []) start_date end_date text =
     filter_rows rows None start_date end_date text \<and>
   filter_rows rows category start_date end_date (Some []) =
     filter_rows rows category start_date end_date None \<and>
   (c \<noteq> [] \<longrightarrow> filter_rows rows (Some c) start_date end_date text = Inr out \<longrightarrow>
      [d, amt, [], desc] \<notin> set out)"
proof (intro conjI impI)
  show "filter_rows rows (Some []) start_date end_date text =
     filter_rows rows None start_date end_date text"
    unfolding filter_rows_def
    by (rule filter_loop_cong) (simp_all add: skip_category_def)
next
  show "filter_rows rows category start_date end_date (Some []) =
     filter_rows rows category start_date end_date None"
    unfolding filter_rows_def
    by (rule filter_loop_cong) (simp_all add: skip_text_def)
next
  assume c: "c \<noteq> []" and res: "filter_rows rows (Some c) start_date end_date text = Inr out"
  have skip: "skip_category (Some c) []"
    using c by (auto simp: skip_category_def lower_def)
  have "\<And>acc out. filter_loop (Some c) start_date end_date text acc rows = Inr out \<Longrightarrow>
      [d, amt, [], desc] \<notin> set acc \<Longrightarrow> [d, amt, [], desc] \<notin> set out"
  proof (induction rows)
    case Nil
    then show ?case by simp
  next
    case (Cons r rows)
    show ?case
    proof (cases "unpack4 r")
      case (Inl e)
      with Cons.prems show ?thesis by simp
    next
      case (Inr q)
      obtain d' amt' cat' desc' where q: "q = (d', amt', cat', desc')"
        by (cases q) auto
      have r: "r = [d', amt', cat', desc']"
        using Inr q by (auto elim: unpack4.elims)
      show ?thesis
      proof (cases "cat' = []")
        case True
        then show ?thesis
          using Cons.prems Cons.IH [of acc out] Inr q skip by simp
      next
        case False
        then have "r \<noteq> [d, amt, [], desc]" using r by simp
        then have "[d, amt, [], desc] \<notin> set (acc @ [r])"
          using Cons.prems(2) by auto
        then show ?thesis
          using Cons.prems Cons.IH [of acc out] Cons.IH [of "acc @ [r]" out] Inr q
          by (auto split: if_splits)
      qed
    qed
  qed
  from this [of "[]" out] res show "[d, amt, [], desc] \<notin> set out"
    by (simp add: filter_rows_def)
qed

theorem filter_rows_empty_string_criteria_witness:
  "filter_rows [[''2025-01-05'', ''12.50'', [], ''lunch'']] (Some ''food'') None None None = Inr [] \<and>
   [''2025-01-05'', ''12.50'', [], ''lunch''] \<notin> set ([] :: string list list)"
proof -
  have c: "''food'' \<noteq> []" by simp
  have r: "filter_rows [[''2025-01-05'', ''12.50'', [], ''lunch'']] (Some ''food'') None None None = Inr []"
    by code_simp
  from filter_rows_empty_string_criteria [of "[[''2025-01-05'', ''12.50'', [], ''lunch'']]"
      None None None None "''food''" "[]" "''2025-01-05''" "''12.50''" "''lunch''"]
  show ?thesis using c r by simp
qed

subsection \<open>The CSV file: what is written is read back\<close>

lemma split_lines_Nil_iff: "split_lines s = [] \<longleftrightarrow> s = []"
  by (cases s) (auto split: list.splits)

lemma read_records_eq_run: "read_records rd (split_lines s) = run rd s"
proof (induction s arbitrary: rd)
  case Nil
  show ?case by simp
next
  case (Cons c cs)
  show ?case
  proof (cases "ends_line c cs")
    case True
    then show ?thesis
      by (simp add: Cons.IH split: sum.splits)
  next
    case False
    show ?thesis
    proof (cases cs)
      case Nil
      with False show ?thesis by (simp split: sum.splits)
    next
      case (Cons d ds)
      then obtain l ls where ls: "split_lines cs = l # ls"
        using split_lines_Nil_iff [of cs] by (cases "split_lines cs") auto
      have "read_records rd ((c # l) # ls) =
          (case parse_process_char rd (Some c) of Inl e \<Rightarrow> Inl e
           | Inr rd' \<Rightarrow> read_records rd' (l # ls))"
        by (simp split: sum.splits)
      then show ?thesis
        using False Cons ls Cons.IH [symmetric] by (simp split: sum.splits)
    qed
  qed
qed

lemma ppc_quoted_char:
  assumes "c \<noteq> QUOTE" "int (length b) < field_limit"
  shows "parse_process_char \<lparr>state = IN_QUOTED_FIELD, row_fields = fs, field = b\<rparr> (Some c) =
         Inr \<lparr>state = IN_QUOTED_FIELD, row_fields = fs, field = b @ [c]\<rparr>"
  using assms by (simp add: parse_process_char_def parse_add_char_def)

lemma ppc_quoted_quote:
  "parse_process_char \<lparr>state = IN_QUOTED_FIELD, row_fields = fs, field = b\<rparr> (Some QUOTE) =
         Inr \<lparr>state = QUOTE_IN_QUOTED_FIELD, row_fields = fs, field = b\<rparr>"
  by (simp add: parse_process_char_def)

lemma ppc_quoted_eol:
  "parse_process_char \<lparr>state = IN_QUOTED_FIELD, row_fields = fs, field = b\<rparr> None =
         Inr \<lparr>state = IN_QUOTED_FIELD, row_fields = fs, field = b\<rparr>"
  by (simp add: parse_process_char_def)

lemma ppc_quote_quote:
  assumes "int (length b) < field_limit"
  shows "parse_process_char \<lparr>state = QUOTE_IN_QUOTED_FIELD, row_fields = fs, field = b\<rparr> (Some QUOTE) =
         Inr \<lparr>state = IN_QUOTED_FIELD, row_fields = fs, field = b @ [QUOTE]\<rparr>"
  using assms by (simp add: parse_process_char_def parse_add_char_def)

lemma ppc_quote_comma:
  "parse_process_char \<lparr>state = QUOTE_IN_QUOTED_FIELD, row_fields = fs, field = b\<rparr> (Some COMMA) =
         Inr \<lparr>state = START_FIELD, row_fields = fs @ [b], field = []\<rparr>"
  by (simp add: parse_process_char_def parse_save_field_def)

lemma ppc_quote_cr:
  "parse_process_char \<lparr>state = QUOTE_IN_QUOTED_FIELD, row_fields = fs, field = b\<rparr> (Some CR) =
         Inr \<lparr>state = EAT_CRNL, row_fields = fs @ [b], field = []\<rparr>"
  by (simp add: parse_process_char_def parse_save_field_def)

lemma ppc_field_char:
  assumes "\<not> special c" "int (length b) < field_limit"
  shows "parse_process_char \<lparr>state = IN_FIELD, row_fields = fs, field = b\<rparr> (Some c) =
         Inr \<lparr>state = IN_FIELD, row_fields = fs, field = b @ [c]\<rparr>"
  using assms by (simp add: parse_process_char_def parse_add_char_def special_def)

lemma ppc_field_full:
  assumes "\<not> special c" "field_limit \<le> int (length b)"
  shows "parse_process_char \<lparr>state = IN_FIELD, row_fields = fs, field = b\<rparr> (Some c) =
         Inl CsvError"
  using assms by (simp add: parse_process_char_def parse_add_char_def special_def)

lemma ppc_field_comma:
  "parse_process_char \<lparr>state = IN_FIELD, row_fields = fs, field = b\<rparr> (Some COMMA) =
         Inr \<lparr>state = START_FIELD, row_fields = fs @ [b], field = []\<rparr>"
  by (simp add: parse_process_char_def parse_save_field_def)

lemma ppc_field_cr:
  "parse_process_char \<lparr>state = IN_FIELD, row_fields = fs, field = b\<rparr> (Some CR) =
         Inr \<lparr>state = EAT_CRNL, row_fields = fs @ [b], field = []\<rparr>"
  by (simp add: parse_process_char_def parse_save_field_def)

lemma ppc_start_char:
  assumes "st = START_RECORD \<or> st = START_FIELD" "\<not> special c" "0 < field_limit"
  shows "parse_process_char \<lparr>state = st, row_fields = fs, field = []\<rparr> (Some c) =
         Inr \<lparr>state = IN_FIELD, row_fields = fs, field = [c]\<rparr>"
  using assms
  by (auto simp: parse_process_char_def start_field_def parse_add_char_def special_def)

lemma ppc_start_quote:
  assumes "st = START_RECORD \<or> st = START_FIELD"
  shows "parse_process_char \<lparr>state = st, row_fields = fs, field = []\<rparr> (Some QUOTE) =
         Inr \<lparr>state = IN_QUOTED_FIELD, row_fields = fs, field = []\<rparr>"
  using assms by (auto simp: parse_process_char_def start_field_def)

lemma ppc_start_comma:
  assumes "st = START_RECORD \<or> st = START_FIELD"
  shows "parse_process_char \<lparr>state = st, row_fields = fs, field = []\<rparr> (Some COMMA) =
         Inr \<lparr>state = START_FIELD, row_fields = fs @ [[]], field = []\<rparr>"
  using assms by (auto simp: parse_process_char_def start_field_def parse_save_field_def)

lemma ppc_start_field_cr:
  "parse_process_char \<lparr>state = START_FIELD, row_fields = fs, field = []\<rparr> (Some CR) =
         Inr \<lparr>state = EAT_CRNL, row_fields = fs @ [[]], field = []\<rparr>"
  by (simp add: parse_process_char_def start_field_def parse_save_field_def)

lemma ppc_start_record_cr:
  "parse_process_char \<lparr>state = START_RECORD, row_fields = fs, field = []\<rparr> (Some CR) =
         Inr \<lparr>state = EAT_CRNL, row_fields = fs, field = []\<rparr>"
  by (simp add: parse_process_char_def)

lemma ppc_eat_lf:
  "parse_process_char \<lparr>state = EAT_CRNL, row_fields = fs, field = b\<rparr> (Some LF) =
         Inr \<lparr>state = EAT_CRNL, row_fields = fs, field = b\<rparr>"
  by (simp add: parse_process_char_def)

lemma ppc_eat_eol:
  "parse_process_char \<lparr>state = EAT_CRNL, row_fields = fs, field = b\<rparr> None =
         Inr \<lparr>state = START_RECORD, row_fields = fs, field = b\<rparr>"
  by (simp add: parse_process_char_def)

text \<open>The end of a row: CR LF after a saved field.\<close>

lemma run_eat_crlf:
  "run \<lparr>state = EAT_CRNL, row_fields = fs, field = []\<rparr> (LF # T) =
     cons_row fs (run parse_reset T)"
  by (simp add: ppc_eat_lf ppc_eat_eol ends_line_def)

lemma run_step:
  assumes "parse_process_char rd (Some c) = Inr rd'" "\<not> ends_line c Z" "Z \<noteq> []"
  shows "run rd (c # Z) = run rd' Z"
  using assms by simp

lemma run_step_in_quotes:
  assumes "parse_process_char rd (Some c) = Inr rd'" "state rd' = IN_QUOTED_FIELD"
  shows "run rd (c # Z) = run rd' Z"
proof -
  have "parse_process_char rd' None = Inr rd'"
    using assms(2) by (simp add: parse_process_char_def)
  then show ?thesis using assms by simp
qed

lemma not_special_ends_line: "\<not> special c \<Longrightarrow> \<not> ends_line c Z"
  by (auto simp: ends_line_def special_def)

lemma run_quoted:
  assumes "int (length b) + int (length s) \<le> field_limit" "Y \<noteq> []"
  shows "run \<lparr>state = IN_QUOTED_FIELD, row_fields = fs, field = b\<rparr> (double_quotes s @ Y) =
         run \<lparr>state = IN_QUOTED_FIELD, row_fields = fs, field = b @ s\<rparr> Y"
  using assms
proof (induction s arbitrary: b)
  case Nil
  show ?case by simp
next
  case (Cons c s)
  define Z where "Z = double_quotes s @ Y"
  have lim: "int (length b) < field_limit" using Cons.prems by simp
  have IH: "run \<lparr>state = IN_QUOTED_FIELD, row_fields = fs, field = b @ [c]\<rparr> Z =
      run \<lparr>state = IN_QUOTED_FIELD, row_fields = fs, field = b @ c # s\<rparr> Y"
    using Cons.IH [of "b @ [c]"] Cons.prems by (simp add: Z_def)
  have ne: "Z \<noteq> []" using Cons.prems by (simp add: Z_def)
  show ?case
  proof (cases "c = QUOTE")
    case True
    have "run \<lparr>state = IN_QUOTED_FIELD, row_fields = fs, field = b\<rparr> (QUOTE # QUOTE # Z) =
        run \<lparr>state = QUOTE_IN_QUOTED_FIELD, row_fields = fs, field = b\<rparr> (QUOTE # Z)"
      by (rule run_step) (simp_all add: ppc_quoted_quote ends_line_def)
    also have "\<dots> = run \<lparr>state = IN_QUOTED_FIELD, row_fields = fs, field = b @ [QUOTE]\<rparr> Z"
      by (rule run_step_in_quotes) (simp_all add: ppc_quote_quote lim)
    finally show ?thesis using IH True by (simp add: Z_def)
  next
    case False
    have "run \<lparr>state = IN_QUOTED_FIELD, row_fields = fs, field = b\<rparr> (c # Z) =
        run \<lparr>state = IN_QUOTED_FIELD, row_fields = fs, field = b @ [c]\<rparr> Z"
      by (rule run_step_in_quotes) (simp_all add: ppc_quoted_char False lim)
    then show ?thesis using IH False by (simp add: Z_def)
  qed
qed

lemma run_unquoted:
  assumes "int (length b) + int (length s) \<le> field_limit" "Y \<noteq> []" "\<not> list_ex special s"
  shows "run \<lparr>state = IN_FIELD, row_fields = fs, field = b\<rparr> (s @ Y) =
         run \<lparr>state = IN_FIELD, row_fields = fs, field = b @ s\<rparr> Y"
  using assms
proof (induction s arbitrary: b)
  case Nil
  show ?case by simp
next
  case (Cons c s)
  define Z where "Z = s @ Y"
  have lim: "int (length b) < field_limit" using Cons.prems by simp
  have c: "\<not> special c" using Cons.prems by simp
  have ne: "Z \<noteq> []" using Cons.prems by (simp add: Z_def)
  have IH: "run \<lparr>state = IN_FIELD, row_fields = fs, field = b @ [c]\<rparr> Z =
      run \<lparr>state = IN_FIELD, row_fields = fs, field = b @ c # s\<rparr> Y"
    using Cons.IH [of "b @ [c]"] Cons.prems by (simp add: Z_def)
  have "run \<lparr>state = IN_FIELD, row_fields = fs, field = b\<rparr> (c # Z) =
      run \<lparr>state = IN_FIELD, row_fields = fs, field = b @ [c]\<rparr> Z"
    by (rule run_step) (simp_all add: ppc_field_char c lim ne not_special_ends_line)
  then show ?case using IH by (simp add: Z_def)
qed

text \<open>An unquoted field that is too long makes the reader fail.\<close>

lemma run_unquoted_too_long:
  assumes "int (length b) \<le> field_limit" "field_limit < int (length b) + int (length s)"
    "\<not> list_ex special s"
  shows "run \<lparr>state = IN_FIELD, row_fields = fs, field = b\<rparr> (s @ Y) = Inl CsvError"
  using assms
proof (induction s arbitrary: b)
  case Nil
  then show ?case by simp
next
  case (Cons c s)
  have c: "\<not> special c" using Cons.prems by simp
  show ?case
  proof (cases "field_limit \<le> int (length b)")
    case True
    then show ?thesis by (simp add: ppc_field_full c)
  next
    case False
    then have lim: "int (length b) < field_limit" by simp
    then have ne: "s \<noteq> []" using Cons.prems(2) by auto
    have IH: "run \<lparr>state = IN_FIELD, row_fields = fs, field = b @ [c]\<rparr> (s @ Y) = Inl CsvError"
      using Cons.IH [of "b @ [c]"] Cons.prems lim by simp
    have "run \<lparr>state = IN_FIELD, row_fields = fs, field = b\<rparr> (c # (s @ Y)) =
      run \<lparr>state = IN_FIELD, row_fields = fs, field = b @ [c]\<rparr> (s @ Y)"
      by (rule run_step) (simp_all add: ppc_field_char c lim ne not_special_ends_line)
    then show ?thesis using IH by simp
  qed
qed

text \<open>One field and the comma after it.\<close>

lemma field_limit_pos: "0 < field_limit"
  by (simp add: field_limit_def)

lemma run_field_comma:
  assumes "st = START_RECORD \<or> st = START_FIELD" "int (length f) \<le> field_limit" "Y \<noteq> []"
  shows "run \<lparr>state = st, row_fields = fs, field = []\<rparr> (csv_field f @ COMMA # Y) =
         run \<lparr>state = START_FIELD, row_fields = fs @ [f], field = []\<rparr> Y"
proof (cases "list_ex special f")
  case True
  have "run \<lparr>state = st, row_fields = fs, field = []\<rparr>
          (QUOTE # double_quotes f @ QUOTE # COMMA # Y) =
        run \<lparr>state = IN_QUOTED_FIELD, row_fields = fs, field = []\<rparr>
          (double_quotes f @ QUOTE # COMMA # Y)"
    by (rule run_step_in_quotes) (simp_all add: ppc_start_quote assms(1))
  also have "\<dots> = run \<lparr>state = IN_QUOTED_FIELD, row_fields = fs, field = f\<rparr> (QUOTE # COMMA # Y)"
    using run_quoted [of "[]" f "QUOTE # COMMA # Y" fs] assms(2) by simp
  also have "\<dots> = run \<lparr>state = QUOTE_IN_QUOTED_FIELD, row_fields = fs, field = f\<rparr> (COMMA # Y)"
    by (rule run_step) (simp_all add: ppc_quoted_quote ends_line_def)
  also have "\<dots> = run \<lparr>state = START_FIELD, row_fields = fs @ [f], field = []\<rparr> Y"
    by (rule run_step) (simp_all add: ppc_quote_comma ends_line_def assms(3))
  finally show ?thesis using True by (simp add: csv_field_def)
next
  case False
  show ?thesis
  proof (cases f)
    case Nil
    have "run \<lparr>state = st, row_fields = fs, field = []\<rparr> (COMMA # Y) =
        run \<lparr>state = START_FIELD, row_fields = fs @ [[]], field = []\<rparr> Y"
      by (rule run_step) (simp_all add: ppc_start_comma assms(1) ends_line_def assms(3))
    then show ?thesis using False Nil by (simp add: csv_field_def)
  next
    case (Cons c s)
    have c: "\<not> special c" and s: "\<not> list_ex special s" using False Cons by simp_all
    have "run \<lparr>state = st, row_fields = fs, field = []\<rparr> (c # s @ COMMA # Y) =
        run \<lparr>state = IN_FIELD, row_fields = fs, field = [c]\<rparr> (s @ COMMA # Y)"
      by (rule run_step)
        (simp_all add: ppc_start_char assms(1) c field_limit_pos not_special_ends_line)
    also have "\<dots> = run \<lparr>state = IN_FIELD, row_fields = fs, field = c # s\<rparr> (COMMA # Y)"
      using run_unquoted [of "[c]" s "COMMA # Y" fs] assms(2) s Cons by simp
    also have "\<dots> = run \<lparr>state = START_FIELD, row_fields = fs @ [c # s], field = []\<rparr> Y"
      by (rule run_step) (simp_all add: ppc_field_comma ends_line_def assms(3))
    finally show ?thesis using False Cons by (simp add: csv_field_def)
  qed
qed

text \<open>The last field of a row and the line terminator after it.\<close>

lemma run_cr_lf:
  assumes "parse_process_char rd (Some CR) =
      Inr \<lparr>state = EAT_CRNL, row_fields = fs, field = []\<rparr>"
  shows "run rd (CR # LF # T) = cons_row fs (run parse_reset T)"
proof -
  have "run rd (CR # LF # T) = run \<lparr>state = EAT_CRNL, row_fields = fs, field = []\<rparr> (LF # T)"
    by (rule run_step) (simp_all add: assms ends_line_def)
  also have "\<dots> = cons_row fs (run parse_reset T)"
    by (rule run_eat_crlf)
  finally show ?thesis .
qed

lemma run_field_crlf:
  assumes "st = START_FIELD \<or> (st = START_RECORD \<and> f \<noteq> [])" "int (length f) \<le> field_limit"
  shows "run \<lparr>state = st, row_fields = fs, field = []\<rparr> (csv_field f @ CR # LF # T) =
         cons_row (fs @ [f]) (run parse_reset T)"
proof (cases "list_ex special f")
  case True
  have st: "st = START_RECORD \<or> st = START_FIELD" using assms(1) by auto
  have "run \<lparr>state = st, row_fields = fs, field = []\<rparr>
          (QUOTE # double_quotes f @ QUOTE # CR # LF # T) =
        run \<lparr>state = IN_QUOTED_FIELD, row_fields = fs, field = []\<rparr>
          (double_quotes f @ QUOTE # CR # LF # T)"
    by (rule run_step_in_quotes) (simp_all add: ppc_start_quote st)
  also have "\<dots> = run \<lparr>state = IN_QUOTED_FIELD, row_fields = fs, field = f\<rparr> (QUOTE # CR # LF # T)"
    using run_quoted [of "[]" f "QUOTE # CR # LF # T" fs] assms(2) by simp
  also have "\<dots> = run \<lparr>state = QUOTE_IN_QUOTED_FIELD, row_fields = fs, field = f\<rparr> (CR # LF # T)"
    by (rule run_step) (simp_all add: ppc_quoted_quote ends_line_def)
  also have "\<dots> = cons_row (fs @ [f]) (run parse_reset T)"
    by (rule run_cr_lf) (simp add: ppc_quote_cr)
  finally show ?thesis using True by (simp add: csv_field_def)
next
  case False
  show ?thesis
  proof (cases f)
    case Nil
    then have "st = START_FIELD" using assms(1) by simp
    then have "run \<lparr>state = st, row_fields = fs, field = []\<rparr> (CR # LF # T) =
        cons_row (fs @ [[]]) (run parse_reset T)"
      by (intro run_cr_lf) (simp add: ppc_start_field_cr)
    then show ?thesis using False Nil by (simp add: csv_field_def)
  next
    case (Cons c s)
    have st: "st = START_RECORD \<or> st = START_FIELD" using assms(1) by auto
    have c: "\<not> special c" and s: "\<not> list_ex special s" using False Cons by simp_all
    have "run \<lparr>state = st, row_fields = fs, field = []\<rparr> (c # s @ CR # LF # T) =
        run \<lparr>state = IN_FIELD, row_fields = fs, field = [c]\<rparr> (s @ CR # LF # T)"
      by (rule run_step)
        (simp_all add: ppc_start_char st c field_limit_pos not_special_ends_line)
    also have "\<dots> = run \<lparr>state = IN_FIELD, row_fields = fs, field = c # s\<rparr> (CR # LF # T)"
      using run_unquoted [of "[c]" s "CR # LF # T" fs] assms(2) s Cons by simp
    also have "\<dots> = cons_row (fs @ [c # s]) (run parse_reset T)"
      by (rule run_cr_lf) (simp add: ppc_field_cr)
    finally show ?thesis using False Cons by (simp add: csv_field_def)
  qed
qed

lemma run_fields_crlf:
  assumes "r \<noteq> []" "st = START_FIELD \<or> (st = START_RECORD \<and> r \<noteq> [[]])"
    "list_all (\<lambda>f. int (length f) \<le> field_limit) r"
  shows "run \<lparr>state = st, row_fields = fs, field = []\<rparr>
           (join [COMMA] (map csv_field r) @ CR # LF # T) =
         cons_row (fs @ r) (run parse_reset T)"
  using assms
proof (induction r arbitrary: st fs)
  case Nil
  then show ?case by simp
next
  case (Cons f r)
  show ?case
  proof (cases r)
    case Nil
    have "st = START_FIELD \<or> (st = START_RECORD \<and> f \<noteq> [])"
      using Cons.prems(2) Nil by auto
    then show ?thesis
      using run_field_crlf [of st f fs T] Cons.prems(3) Nil by simp
  next
    case (Cons g r')
    have st: "st = START_RECORD \<or> st = START_FIELD" using Cons.prems(2) by auto
    have "run \<lparr>state = st, row_fields = fs, field = []\<rparr>
           (csv_field f @ COMMA # (join [COMMA] (map csv_field r) @ CR # LF # T)) =
         run \<lparr>state = START_FIELD, row_fields = fs @ [f], field = []\<rparr>
           (join [COMMA] (map csv_field r) @ CR # LF # T)"
      using run_field_comma [OF st, of f "join [COMMA] (map csv_field r) @ CR # LF # T" fs]
        Cons.prems(3) by simp
    also have "\<dots> = cons_row ((fs @ [f]) @ r) (run parse_reset T)"
      using Cons.IH [of START_FIELD "fs @ [f]"] Cons.prems(3) Cons by simp
    finally show ?thesis using Cons by simp
  qed
qed

lemma run_writerow:
  assumes "list_all (\<lambda>f. int (length f) \<le> field_limit) r"
  shows "run parse_reset (writerow r @ T) = cons_row r (run parse_reset T)"
proof -
  consider "r = []" | "r = [[]]" | "r \<noteq> []" "r \<noteq> [[]]" by blast
  then show ?thesis
  proof cases
    case 1
    have "run \<lparr>state = START_RECORD, row_fields = [], field = []\<rparr> (CR # LF # T) =
        cons_row [] (run parse_reset T)"
      by (rule run_cr_lf) (simp add: ppc_start_record_cr)
    then show ?thesis using 1 by (simp add: writerow_def parse_reset_def)
  next
    case 2
    have "run \<lparr>state = START_RECORD, row_fields = [], field = []\<rparr>
          (QUOTE # QUOTE # CR # LF # T) =
        run \<lparr>state = IN_QUOTED_FIELD, row_fields = [], field = []\<rparr> (QUOTE # CR # LF # T)"
      by (rule run_step_in_quotes) (simp_all add: ppc_start_quote)
    also have "\<dots> = run \<lparr>state = QUOTE_IN_QUOTED_FIELD, row_fields = [], field = []\<rparr>
          (CR # LF # T)"
      by (rule run_step) (simp_all add: ppc_quoted_quote ends_line_def)
    also have "\<dots> = cons_row ([] @ [[]]) (run parse_reset T)"
      by (rule run_cr_lf) (simp add: ppc_quote_cr)
    finally show ?thesis using 2 by (simp add: writerow_def parse_reset_def)
  next
    case 3
    then show ?thesis
      using run_fields_crlf [of r START_RECORD "[]" T] assms
      by (simp add: writerow_def parse_reset_def)
  qed
qed

lemma run_writerows:
  assumes "within_limit rows"
  shows "run parse_reset (writerows rows @ T) =
         (case run parse_reset T of Inl e \<Rightarrow> Inl e | Inr rs \<Rightarrow> Inr (rows @ rs))"
  using assms
proof (induction rows)
  case Nil
  show ?case by (simp add: writerows_def split: sum.splits)
next
  case (Cons r rows)
  have "run parse_reset (writerow r @ writerows rows @ T) =
      cons_row r (run parse_reset (writerows rows @ T))"
    using run_writerow [of r] Cons.prems by (simp add: within_limit_def)
  then show ?case
    using Cons by (simp add: writerows_def within_limit_def cons_row_def split: sum.splits)
qed

lemma csv_reader_writerows:
  assumes "within_limit rows"
  shows "csv_reader (writerows rows) = Inr rows"
  using run_writerows [OF assms, of "[]"]
  by (simp add: csv_reader_def read_records_eq_run parse_reset_def)

lemma within_limit_HEADERS: "list_all (\<lambda>f. int (length f) \<le> field_limit) HEADERS"
  by (simp add: HEADERS_def field_limit_def)

lemma writerow_not_Nil: "writerow r \<noteq> []"
  by (simp add: writerow_def)

lemma ensure_write_rows: "ensure_dirs_and_csv (write_rows rows files) = write_rows rows files"
  by (simp add: ensure_dirs_and_csv_def write_rows_def writerow_not_Nil)

lemma read_rows_write_rows:
  assumes "within_limit rows"
  shows "read_rows (write_rows rows files) = (Inr rows, write_rows rows files)"
proof -
  have "csv_reader (writerows (HEADERS # rows)) = Inr (HEADERS # rows)"
    by (rule csv_reader_writerows) (use assms within_limit_HEADERS in \<open>simp add: within_limit_def\<close>)
  then have "csv_reader (writerow HEADERS @ writerows rows) = Inr (HEADERS # rows)"
    by (simp add: writerows_def)
  then show ?thesis
    by (simp add: read_rows_def ensure_write_rows) (simp add: write_rows_def)
qed

lemma replicate_big: "replicate 131073 x = x # replicate 131072 x"
proof -
  have "(131073::nat) = Suc 131072" by simp
  then show ?thesis by (simp only: replicate_Suc)
qed

subsection \<open>The CSV file over all code points\<close>

text \<open>The lemmas on the reader and the writer of the first part, over code points.\<close>

lemma split_lines_Nil_iff_u: "split_lines_u s = [] \<longleftrightarrow> s = []"
  by (cases s) (auto split: list.splits)

lemma read_records_eq_run_u: "read_records_u rd (split_lines_u s) = run_u rd s"
proof (induction s arbitrary: rd)
  case Nil
  show ?case by simp
next
  case (Cons c cs)
  show ?case
  proof (cases "ends_line_u c cs")
    case True
    then show ?thesis
      by (simp add: Cons.IH split: sum.splits)
  next
    case False
    show ?thesis
    proof (cases cs)
      case Nil
      with False show ?thesis by (simp split: sum.splits)
    next
      case (Cons d ds)
      then obtain l ls where ls: "split_lines_u cs = l # ls"
        using split_lines_Nil_iff_u [of cs] by (cases "split_lines_u cs") auto
      have "read_records_u rd ((c # l) # ls) =
          (case parse_process_char_u rd (Some c) of Inl e \<Rightarrow> Inl e
           | Inr rd' \<Rightarrow> read_records_u rd' (l # ls))"
        by (simp split: sum.splits)
      then show ?thesis
        using False Cons ls Cons.IH [symmetric] by (simp split: sum.splits)
    qed
  qed
qed

lemma ppc_quoted_char_u:
  assumes "c \<noteq> QUOTE_u" "int (length b) < field_limit"
  shows "parse_process_char_u \<lparr>state_u = IN_QUOTED_FIELD, row_fields_u = fs, field_u = b\<rparr> (Some c) =
         Inr \<lparr>state_u = IN_QUOTED_FIELD, row_fields_u = fs, field_u = b @ [c]\<rparr>"
  using assms by (simp add: parse_process_char_u_def parse_add_char_u_def)

lemma ppc_quoted_quote_u:
  "parse_process_char_u \<lparr>state_u = IN_QUOTED_FIELD, row_fields_u = fs, field_u = b\<rparr> (Some QUOTE_u) =
         Inr \<lparr>state_u = QUOTE_IN_QUOTED_FIELD, row_fields_u = fs, field_u = b\<rparr>"
  by (simp add: parse_process_char_u_def)

lemma ppc_quoted_eol_u:
  "parse_process_char_u \<lparr>state_u = IN_QUOTED_FIELD, row_fields_u = fs, field_u = b\<rparr> None =
         Inr \<lparr>state_u = IN_QUOTED_FIELD, row_fields_u = fs, field_u = b\<rparr>"
  by (simp add: parse_process_char_u_def)

lemma ppc_quote_quote_u:
  assumes "int (length b) < field_limit"
  shows "parse_process_char_u \<lparr>state_u = QUOTE_IN_QUOTED_FIELD, row_fields_u = fs, field_u = b\<rparr> (Some QUOTE_u) =
         Inr \<lparr>state_u = IN_QUOTED_FIELD, row_fields_u = fs, field_u = b @ [QUOTE_u]\<rparr>"
  using assms by (simp add: parse_process_char_u_def parse_add_char_u_def)

lemma ppc_quote_comma_u:
  "parse_process_char_u \<lparr>state_u = QUOTE_IN_QUOTED_FIELD, row_fields_u = fs, field_u = b\<rparr> (Some COMMA_u) =
         Inr \<lparr>state_u = START_FIELD, row_fields_u = fs @ [b], field_u = []\<rparr>"
  by (simp add: parse_process_char_u_def parse_save_field_u_def)

lemma ppc_quote_cr_u:
  "parse_process_char_u \<lparr>state_u = QUOTE_IN_QUOTED_FIELD, row_fields_u = fs, field_u = b\<rparr> (Some CR_u) =
         Inr \<lparr>state_u = EAT_CRNL, row_fields_u = fs @ [b], field_u = []\<rparr>"
  by (simp add: parse_process_char_u_def parse_save_field_u_def)

lemma ppc_field_char_u:
  assumes "\<not> special_u c" "int (length b) < field_limit"
  shows "parse_process_char_u \<lparr>state_u = IN_FIELD, row_fields_u = fs, field_u = b\<rparr> (Some c) =
         Inr \<lparr>state_u = IN_FIELD, row_fields_u = fs, field_u = b @ [c]\<rparr>"
  using assms by (simp add: parse_process_char_u_def parse_add_char_u_def special_u_def)

lemma ppc_field_full_u:
  assumes "\<not> special_u c" "field_limit \<le> int (length b)"
  shows "parse_process_char_u \<lparr>state_u = IN_FIELD, row_fields_u = fs, field_u = b\<rparr> (Some c) =
         Inl CsvError"
  using assms by (simp add: parse_process_char_u_def parse_add_char_u_def special_u_def)

lemma ppc_field_comma_u:
  "parse_process_char_u \<lparr>state_u = IN_FIELD, row_fields_u = fs, field_u = b\<rparr> (Some COMMA_u) =
         Inr \<lparr>state_u = START_FIELD, row_fields_u = fs @ [b], field_u = []\<rparr>"
  by (simp add: parse_process_char_u_def parse_save_field_u_def)

lemma ppc_field_cr_u:
  "parse_process_char_u \<lparr>state_u = IN_FIELD, row_fields_u = fs, field_u = b\<rparr> (Some CR_u) =
         Inr \<lparr>state_u = EAT_CRNL, row_fields_u = fs @ [b], field_u = []\<rparr>"
  by (simp add: parse_process_char_u_def parse_save_field_u_def)

lemma ppc_start_char_u:
  assumes "st = START_RECORD \<or> st = START_FIELD" "\<not> special_u c" "0 < field_limit"
  shows "parse_process_char_u \<lparr>state_u = st, row_fields_u = fs, field_u = []\<rparr> (Some c) =
         Inr \<lparr>state_u = IN_FIELD, row_fields_u = fs, field_u = [c]\<rparr>"
  using assms
  by (auto simp: parse_process_char_u_def start_field_u_def parse_add_char_u_def special_u_def)

lemma ppc_start_quote_u:
  assumes "st = START_RECORD \<or> st = START_FIELD"
  shows "parse_process_char_u \<lparr>state_u = st, row_fields_u = fs, field_u = []\<rparr> (Some QUOTE_u) =
         Inr \<lparr>state_u = IN_QUOTED_FIELD, row_fields_u = fs, field_u = []\<rparr>"
  using assms by (auto simp: parse_process_char_u_def start_field_u_def)

lemma ppc_start_comma_u:
  assumes "st = START_RECORD \<or> st = START_FIELD"
  shows "parse_process_char_u \<lparr>state_u = st, row_fields_u = fs, field_u = []\<rparr> (Some COMMA_u) =
         Inr \<lparr>state_u = START_FIELD, row_fields_u = fs @ [[]], field_u = []\<rparr>"
  using assms by (auto simp: parse_process_char_u_def start_field_u_def parse_save_field_u_def)

lemma ppc_start_field_cr_u:
  "parse_process_char_u \<lparr>state_u = START_FIELD, row_fields_u = fs, field_u = []\<rparr> (Some CR_u) =
         Inr \<lparr>state_u = EAT_CRNL, row_fields_u = fs @ [[]], field_u = []\<rparr>"
  by (simp add: parse_process_char_u_def start_field_u_def parse_save_field_u_def)

lemma ppc_start_record_cr_u:
  "parse_process_char_u \<lparr>state_u = START_RECORD, row_fields_u = fs, field_u = []\<rparr> (Some CR_u) =
         Inr \<lparr>state_u = EAT_CRNL, row_fields_u = fs, field_u = []\<rparr>"
  by (simp add: parse_process_char_u_def)

lemma ppc_eat_lf_u:
  "parse_process_char_u \<lparr>state_u = EAT_CRNL, row_fields_u = fs, field_u = b\<rparr> (Some LF_u) =
         Inr \<lparr>state_u = EAT_CRNL, row_fields_u = fs, field_u = b\<rparr>"
  by (simp add: parse_process_char_u_def)

lemma ppc_eat_eol_u:
  "parse_process_char_u \<lparr>state_u = EAT_CRNL, row_fields_u = fs, field_u = b\<rparr> None =
         Inr \<lparr>state_u = START_RECORD, row_fields_u = fs, field_u = b\<rparr>"
  by (simp add: parse_process_char_u_def)

text \<open>The end of a row: CR LF after a saved field.\<close>

lemma run_eat_crlf_u:
  "run_u \<lparr>state_u = EAT_CRNL, row_fields_u = fs, field_u = []\<rparr> (LF_u # T) =
     cons_row_u fs (run_u parse_reset_u T)"
  by (simp add: ppc_eat_lf_u ppc_eat_eol_u ends_line_u_def)

lemma run_step_u:
  assumes "parse_process_char_u rd (Some c) = Inr rd'" "\<not> ends_line_u c Z" "Z \<noteq> []"
  shows "run_u rd (c # Z) = run_u rd' Z"
  using assms by simp

lemma run_step_in_quotes_u:
  assumes "parse_process_char_u rd (Some c) = Inr rd'" "state_u rd' = IN_QUOTED_FIELD"
  shows "run_u rd (c # Z) = run_u rd' Z"
proof -
  have "parse_process_char_u rd' None = Inr rd'"
    using assms(2) by (simp add: parse_process_char_u_def)
  then show ?thesis using assms by simp
qed

lemma not_special_ends_line_u: "\<not> special_u c \<Longrightarrow> \<not> ends_line_u c Z"
  by (auto simp: ends_line_u_def special_u_def)

lemma run_quoted_u:
  assumes "int (length b) + int (length s) \<le> field_limit" "Y \<noteq> []"
  shows "run_u \<lparr>state_u = IN_QUOTED_FIELD, row_fields_u = fs, field_u = b\<rparr> (double_quotes_u s @ Y) =
         run_u \<lparr>state_u = IN_QUOTED_FIELD, row_fields_u = fs, field_u = b @ s\<rparr> Y"
  using assms
proof (induction s arbitrary: b)
  case Nil
  show ?case by simp
next
  case (Cons c s)
  define Z where "Z = double_quotes_u s @ Y"
  have lim: "int (length b) < field_limit" using Cons.prems by simp
  have IH: "run_u \<lparr>state_u = IN_QUOTED_FIELD, row_fields_u = fs, field_u = b @ [c]\<rparr> Z =
      run_u \<lparr>state_u = IN_QUOTED_FIELD, row_fields_u = fs, field_u = b @ c # s\<rparr> Y"
    using Cons.IH [of "b @ [c]"] Cons.prems by (simp add: Z_def)
  have ne: "Z \<noteq> []" using Cons.prems by (simp add: Z_def)
  show ?case
  proof (cases "c = QUOTE_u")
    case True
    have "run_u \<lparr>state_u = IN_QUOTED_FIELD, row_fields_u = fs, field_u = b\<rparr> (QUOTE_u # QUOTE_u # Z) =
        run_u \<lparr>state_u = QUOTE_IN_QUOTED_FIELD, row_fields_u = fs, field_u = b\<rparr> (QUOTE_u # Z)"
      by (rule run_step_u) (simp_all add: ppc_quoted_quote_u ends_line_u_def)
    also have "\<dots> = run_u \<lparr>state_u = IN_QUOTED_FIELD, row_fields_u = fs, field_u = b @ [QUOTE_u]\<rparr> Z"
      by (rule run_step_in_quotes_u) (simp_all add: ppc_quote_quote_u lim)
    finally show ?thesis using IH True by (simp add: Z_def)
  next
    case False
    have "run_u \<lparr>state_u = IN_QUOTED_FIELD, row_fields_u = fs, field_u = b\<rparr> (c # Z) =
        run_u \<lparr>state_u = IN_QUOTED_FIELD, row_fields_u = fs, field_u = b @ [c]\<rparr> Z"
      by (rule run_step_in_quotes_u) (simp_all add: ppc_quoted_char_u False lim)
    then show ?thesis using IH False by (simp add: Z_def)
  qed
qed

lemma run_unquoted_u:
  assumes "int (length b) + int (length s) \<le> field_limit" "Y \<noteq> []" "\<not> list_ex special_u s"
  shows "run_u \<lparr>state_u = IN_FIELD, row_fields_u = fs, field_u = b\<rparr> (s @ Y) =
         run_u \<lparr>state_u = IN_FIELD, row_fields_u = fs, field_u = b @ s\<rparr> Y"
  using assms
proof (induction s arbitrary: b)
  case Nil
  show ?case by simp
next
  case (Cons c s)
  define Z where "Z = s @ Y"
  have lim: "int (length b) < field_limit" using Cons.prems by simp
  have c: "\<not> special_u c" using Cons.prems by simp
  have ne: "Z \<noteq> []" using Cons.prems by (simp add: Z_def)
  have IH: "run_u \<lparr>state_u = IN_FIELD, row_fields_u = fs, field_u = b @ [c]\<rparr> Z =
      run_u \<lparr>state_u = IN_FIELD, row_fields_u = fs, field_u = b @ c # s\<rparr> Y"
    using Cons.IH [of "b @ [c]"] Cons.prems by (simp add: Z_def)
  have "run_u \<lparr>state_u = IN_FIELD, row_fields_u = fs, field_u = b\<rparr> (c # Z) =
      run_u \<lparr>state_u = IN_FIELD, row_fields_u = fs, field_u = b @ [c]\<rparr> Z"
    by (rule run_step_u) (simp_all add: ppc_field_char_u c lim ne not_special_ends_line_u)
  then show ?case using IH by (simp add: Z_def)
qed

text \<open>An unquoted field that is too long makes the reader fail.\<close>

lemma run_unquoted_too_long_u:
  assumes "int (length b) \<le> field_limit" "field_limit < int (length b) + int (length s)"
    "\<not> list_ex special_u s"
  shows "run_u \<lparr>state_u = IN_FIELD, row_fields_u = fs, field_u = b\<rparr> (s @ Y) = Inl CsvError"
  using assms
proof (induction s arbitrary: b)
  case Nil
  then show ?case by simp
next
  case (Cons c s)
  have c: "\<not> special_u c" using Cons.prems by simp
  show ?case
  proof (cases "field_limit \<le> int (length b)")
    case True
    then show ?thesis by (simp add: ppc_field_full_u c)
  next
    case False
    then have lim: "int (length b) < field_limit" by simp
    then have ne: "s \<noteq> []" using Cons.prems(2) by auto
    have IH: "run_u \<lparr>state_u = IN_FIELD, row_fields_u = fs, field_u = b @ [c]\<rparr> (s @ Y) = Inl CsvError"
      using Cons.IH [of "b @ [c]"] Cons.prems lim by simp
    have "run_u \<lparr>state_u = IN_FIELD, row_fields_u = fs, field_u = b\<rparr> (c # (s @ Y)) =
      run_u \<lparr>state_u = IN_FIELD, row_fields_u = fs, field_u = b @ [c]\<rparr> (s @ Y)"
      by (rule run_step_u) (simp_all add: ppc_field_char_u c lim ne not_special_ends_line_u)
    then show ?thesis using IH by simp
  qed
qed

text \<open>One field and the comma after it.\<close>


lemma run_field_comma_u:
  assumes "st = START_RECORD \<or> st = START_FIELD" "int (length f) \<le> field_limit" "Y \<noteq> []"
  shows "run_u \<lparr>state_u = st, row_fields_u = fs, field_u = []\<rparr> (csv_field_u f @ COMMA_u # Y) =
         run_u \<lparr>state_u = START_FIELD, row_fields_u = fs @ [f], field_u = []\<rparr> Y"
proof (cases "list_ex special_u f")
  case True
  have "run_u \<lparr>state_u = st, row_fields_u = fs, field_u = []\<rparr>
          (QUOTE_u # double_quotes_u f @ QUOTE_u # COMMA_u # Y) =
        run_u \<lparr>state_u = IN_QUOTED_FIELD, row_fields_u = fs, field_u = []\<rparr>
          (double_quotes_u f @ QUOTE_u # COMMA_u # Y)"
    by (rule run_step_in_quotes_u) (simp_all add: ppc_start_quote_u assms(1))
  also have "\<dots> = run_u \<lparr>state_u = IN_QUOTED_FIELD, row_fields_u = fs, field_u = f\<rparr> (QUOTE_u # COMMA_u # Y)"
    using run_quoted_u [of "[]" f "QUOTE_u # COMMA_u # Y" fs] assms(2) by simp
  also have "\<dots> = run_u \<lparr>state_u = QUOTE_IN_QUOTED_FIELD, row_fields_u = fs, field_u = f\<rparr> (COMMA_u # Y)"
    by (rule run_step_u) (simp_all add: ppc_quoted_quote_u ends_line_u_def)
  also have "\<dots> = run_u \<lparr>state_u = START_FIELD, row_fields_u = fs @ [f], field_u = []\<rparr> Y"
    by (rule run_step_u) (simp_all add: ppc_quote_comma_u ends_line_u_def assms(3))
  finally show ?thesis using True by (simp add: csv_field_u_def)
next
  case False
  show ?thesis
  proof (cases f)
    case Nil
    have "run_u \<lparr>state_u = st, row_fields_u = fs, field_u = []\<rparr> (COMMA_u # Y) =
        run_u \<lparr>state_u = START_FIELD, row_fields_u = fs @ [[]], field_u = []\<rparr> Y"
      by (rule run_step_u) (simp_all add: ppc_start_comma_u assms(1) ends_line_u_def assms(3))
    then show ?thesis using False Nil by (simp add: csv_field_u_def)
  next
    case (Cons c s)
    have c: "\<not> special_u c" and s: "\<not> list_ex special_u s" using False Cons by simp_all
    have "run_u \<lparr>state_u = st, row_fields_u = fs, field_u = []\<rparr> (c # s @ COMMA_u # Y) =
        run_u \<lparr>state_u = IN_FIELD, row_fields_u = fs, field_u = [c]\<rparr> (s @ COMMA_u # Y)"
      by (rule run_step_u)
        (simp_all add: ppc_start_char_u assms(1) c field_limit_pos not_special_ends_line_u)
    also have "\<dots> = run_u \<lparr>state_u = IN_FIELD, row_fields_u = fs, field_u = c # s\<rparr> (COMMA_u # Y)"
      using run_unquoted_u [of "[c]" s "COMMA_u # Y" fs] assms(2) s Cons by simp
    also have "\<dots> = run_u \<lparr>state_u = START_FIELD, row_fields_u = fs @ [c # s], field_u = []\<rparr> Y"
      by (rule run_step_u) (simp_all add: ppc_field_comma_u ends_line_u_def assms(3))
    finally show ?thesis using False Cons by (simp add: csv_field_u_def)
  qed
qed

text \<open>The last field of a row and the line terminator after it.\<close>

lemma run_cr_lf_u:
  assumes "parse_process_char_u rd (Some CR_u) =
      Inr \<lparr>state_u = EAT_CRNL, row_fields_u = fs, field_u = []\<rparr>"
  shows "run_u rd (CR_u # LF_u # T) = cons_row_u fs (run_u parse_reset_u T)"
proof -
  have "run_u rd (CR_u # LF_u # T) = run_u \<lparr>state_u = EAT_CRNL, row_fields_u = fs, field_u = []\<rparr> (LF_u # T)"
    by (rule run_step_u) (simp_all add: assms ends_line_u_def)
  also have "\<dots> = cons_row_u fs (run_u parse_reset_u T)"
    by (rule run_eat_crlf_u)
  finally show ?thesis .
qed

lemma run_field_crlf_u:
  assumes "st = START_FIELD \<or> (st = START_RECORD \<and> f \<noteq> [])" "int (length f) \<le> field_limit"
  shows "run_u \<lparr>state_u = st, row_fields_u = fs, field_u = []\<rparr> (csv_field_u f @ CR_u # LF_u # T) =
         cons_row_u (fs @ [f]) (run_u parse_reset_u T)"
proof (cases "list_ex special_u f")
  case True
  have st: "st = START_RECORD \<or> st = START_FIELD" using assms(1) by auto
  have "run_u \<lparr>state_u = st, row_fields_u = fs, field_u = []\<rparr>
          (QUOTE_u # double_quotes_u f @ QUOTE_u # CR_u # LF_u # T) =
        run_u \<lparr>state_u = IN_QUOTED_FIELD, row_fields_u = fs, field_u = []\<rparr>
          (double_quotes_u f @ QUOTE_u # CR_u # LF_u # T)"
    by (rule run_step_in_quotes_u) (simp_all add: ppc_start_quote_u st)
  also have "\<dots> = run_u \<lparr>state_u = IN_QUOTED_FIELD, row_fields_u = fs, field_u = f\<rparr> (QUOTE_u # CR_u # LF_u # T)"
    using run_quoted_u [of "[]" f "QUOTE_u # CR_u # LF_u # T" fs] assms(2) by simp
  also have "\<dots> = run_u \<lparr>state_u = QUOTE_IN_QUOTED_FIELD, row_fields_u = fs, field_u = f\<rparr> (CR_u # LF_u # T)"
    by (rule run_step_u) (simp_all add: ppc_quoted_quote_u ends_line_u_def)
  also have "\<dots> = cons_row_u (fs @ [f]) (run_u parse_reset_u T)"
    by (rule run_cr_lf_u) (simp add: ppc_quote_cr_u)
  finally show ?thesis using True by (simp add: csv_field_u_def)
next
  case False
  show ?thesis
  proof (cases f)
    case Nil
    then have "st = START_FIELD" using assms(1) by simp
    then have "run_u \<lparr>state_u = st, row_fields_u = fs, field_u = []\<rparr> (CR_u # LF_u # T) =
        cons_row_u (fs @ [[]]) (run_u parse_reset_u T)"
      by (intro run_cr_lf_u) (simp add: ppc_start_field_cr_u)
    then show ?thesis using False Nil by (simp add: csv_field_u_def)
  next
    case (Cons c s)
    have st: "st = START_RECORD \<or> st = START_FIELD" using assms(1) by auto
    have c: "\<not> special_u c" and s: "\<not> list_ex special_u s" using False Cons by simp_all
    have "run_u \<lparr>state_u = st, row_fields_u = fs, field_u = []\<rparr> (c # s @ CR_u # LF_u # T) =
        run_u \<lparr>state_u = IN_FIELD, row_fields_u = fs, field_u = [c]\<rparr> (s @ CR_u # LF_u # T)"
      by (rule run_step_u)
        (simp_all add: ppc_start_char_u st c field_limit_pos not_special_ends_line_u)
    also have "\<dots> = run_u \<lparr>state_u = IN_FIELD, row_fields_u = fs, field_u = c # s\<rparr> (CR_u # LF_u # T)"
      using run_unquoted_u [of "[c]" s "CR_u # LF_u # T" fs] assms(2) s Cons by simp
    also have "\<dots> = cons_row_u (fs @ [c # s]) (run_u parse_reset_u T)"
      by (rule run_cr_lf_u) (simp add: ppc_field_cr_u)
    finally show ?thesis using False Cons by (simp add: csv_field_u_def)
  qed
qed

lemma run_fields_crlf_u:
  assumes "r \<noteq> []" "st = START_FIELD \<or> (st = START_RECORD \<and> r \<noteq> [[]])"
    "list_all (\<lambda>f. int (length f) \<le> field_limit) r"
  shows "run_u \<lparr>state_u = st, row_fields_u = fs, field_u = []\<rparr>
           (join_u [COMMA_u] (map csv_field_u r) @ CR_u # LF_u # T) =
         cons_row_u (fs @ r) (run_u parse_reset_u T)"
  using assms
proof (induction r arbitrary: st fs)
  case Nil
  then show ?case by simp
next
  case (Cons f r)
  show ?case
  proof (cases r)
    case Nil
    have "st = START_FIELD \<or> (st = START_RECORD \<and> f \<noteq> [])"
      using Cons.prems(2) Nil by auto
    then show ?thesis
      using run_field_crlf_u [of st f fs T] Cons.prems(3) Nil by simp
  next
    case (Cons g r')
    have st: "st = START_RECORD \<or> st = START_FIELD" using Cons.prems(2) by auto
    have "run_u \<lparr>state_u = st, row_fields_u = fs, field_u = []\<rparr>
           (csv_field_u f @ COMMA_u # (join_u [COMMA_u] (map csv_field_u r) @ CR_u # LF_u # T)) =
         run_u \<lparr>state_u = START_FIELD, row_fields_u = fs @ [f], field_u = []\<rparr>
           (join_u [COMMA_u] (map csv_field_u r) @ CR_u # LF_u # T)"
      using run_field_comma_u [OF st, of f "join_u [COMMA_u] (map csv_field_u r) @ CR_u # LF_u # T" fs]
        Cons.prems(3) by simp
    also have "\<dots> = cons_row_u ((fs @ [f]) @ r) (run_u parse_reset_u T)"
      using Cons.IH [of START_FIELD "fs @ [f]"] Cons.prems(3) Cons by simp
    finally show ?thesis using Cons by simp
  qed
qed

lemma run_writerow_u:
  assumes "list_all (\<lambda>f. int (length f) \<le> field_limit) r"
  shows "run_u parse_reset_u (writerow_u r @ T) = cons_row_u r (run_u parse_reset_u T)"
proof -
  consider "r = []" | "r = [[]]" | "r \<noteq> []" "r \<noteq> [[]]" by blast
  then show ?thesis
  proof cases
    case 1
    have "run_u \<lparr>state_u = START_RECORD, row_fields_u = [], field_u = []\<rparr> (CR_u # LF_u # T) =
        cons_row_u [] (run_u parse_reset_u T)"
      by (rule run_cr_lf_u) (simp add: ppc_start_record_cr_u)
    then show ?thesis using 1 by (simp add: writerow_u_def parse_reset_u_def)
  next
    case 2
    have "run_u \<lparr>state_u = START_RECORD, row_fields_u = [], field_u = []\<rparr>
          (QUOTE_u # QUOTE_u # CR_u # LF_u # T) =
        run_u \<lparr>state_u = IN_QUOTED_FIELD, row_fields_u = [], field_u = []\<rparr> (QUOTE_u # CR_u # LF_u # T)"
      by (rule run_step_in_quotes_u) (simp_all add: ppc_start_quote_u)
    also have "\<dots> = run_u \<lparr>state_u = QUOTE_IN_QUOTED_FIELD, row_fields_u = [], field_u = []\<rparr>
          (CR_u # LF_u # T)"
      by (rule run_step_u) (simp_all add: ppc_quoted_quote_u ends_line_u_def)
    also have "\<dots> = cons_row_u ([] @ [[]]) (run_u parse_reset_u T)"
      by (rule run_cr_lf_u) (simp add: ppc_quote_cr_u)
    finally show ?thesis using 2 by (simp add: writerow_u_def parse_reset_u_def)
  next
    case 3
    then show ?thesis
      using run_fields_crlf_u [of r START_RECORD "[]" T] assms
      by (simp add: writerow_u_def parse_reset_u_def)
  qed
qed

lemma run_writerows_u:
  assumes "within_limit_u rows"
  shows "run_u parse_reset_u (writerows_u rows @ T) =
         (case run_u parse_reset_u T of Inl e \<Rightarrow> Inl e | Inr rs \<Rightarrow> Inr (rows @ rs))"
  using assms
proof (induction rows)
  case Nil
  show ?case by (simp add: writerows_u_def split: sum.splits)
next
  case (Cons r rows)
  have "run_u parse_reset_u (writerow_u r @ writerows_u rows @ T) =
      cons_row_u r (run_u parse_reset_u (writerows_u rows @ T))"
    using run_writerow_u [of r] Cons.prems by (simp add: within_limit_u_def)
  then show ?case
    using Cons by (simp add: writerows_u_def within_limit_u_def cons_row_u_def split: sum.splits)
qed

lemma csv_reader_writerows_u:
  assumes "within_limit_u rows"
  shows "csv_reader_u (writerows_u rows) = Inr rows"
  using run_writerows_u [OF assms, of "[]"]
  by (simp add: csv_reader_u_def read_records_eq_run_u parse_reset_u_def)

lemma within_limit_HEADERS_u: "list_all (\<lambda>f. int (length f) \<le> field_limit) HEADERS_u"
  by (simp add: HEADERS_u_def HEADERS_def ustr_def field_limit_def)

lemma writerow_not_Nil_u: "writerow_u r \<noteq> []"
  by (simp add: writerow_u_def)

lemma read_rows_u_written:
  assumes "within_limit_u rows"
  shows "read_rows_u (files(CSV \<mapsto> writerow_u HEADERS_u @ writerows_u rows)) =
         (Inr rows, files(CSV \<mapsto> writerow_u HEADERS_u @ writerows_u rows))"
proof -
  have "csv_reader_u (writerows_u (HEADERS_u # rows)) = Inr (HEADERS_u # rows)"
    by (rule csv_reader_writerows_u)
      (use assms within_limit_HEADERS_u in \<open>simp add: within_limit_u_def\<close>)
  then have "csv_reader_u (writerow_u HEADERS_u @ writerows_u rows) = Inr (HEADERS_u # rows)"
    by (simp add: writerows_u_def)
  then show ?thesis
    by (simp add: read_rows_u_def ensure_dirs_and_csv_u_def writerow_not_Nil_u)
qed

text \<open>The writer adds only commas, quotes, CR and LF, which UTF-8 encodes.\<close>

lemma encodable_double_quotes_u:
  "list_all encodable (double_quotes_u s) \<longleftrightarrow> list_all encodable s"
  by (induction s) (auto simp: encodable_def surrogate_def)

lemma encodable_csv_field_u:
  "list_all encodable (csv_field_u s) \<longleftrightarrow> list_all encodable s"
  by (simp add: csv_field_u_def encodable_double_quotes_u) (simp add: encodable_def surrogate_def)

lemma encodable_join_u:
  "list_all encodable (join_u [COMMA_u] (map csv_field_u r)) \<longleftrightarrow> list_all (list_all encodable) r"
proof (induction r rule: induct_list012)
  case 1
  show ?case by simp
next
  case (2 x)
  show ?case by (simp add: encodable_csv_field_u)
next
  case (3 x y zs)
  have "encodable COMMA_u" by (simp add: encodable_def surrogate_def)
  then show ?case using 3 by (auto simp: encodable_csv_field_u)
qed

lemma encodable_writerow_u:
  "list_all encodable (writerow_u r) \<longleftrightarrow> list_all (list_all encodable) r"
proof -
  have sp: "encodable CR_u" "encodable LF_u" "encodable QUOTE_u"
    by (simp_all add: encodable_def surrogate_def)
  show ?thesis
  proof (cases "r = [[]]")
    case True
    then show ?thesis using sp by (simp add: writerow_u_def)
  next
    case False
    then show ?thesis using sp encodable_join_u [of r] by (simp add: writerow_u_def)
  qed
qed

lemma file_write_writerow_u:
  "file_write written (writerow_u r) =
     (if list_all (list_all encodable) r then Inr (written @ writerow_u r)
      else Inl UnicodeEncodeError)"
  by (simp add: file_write_def encodable_writerow_u)

lemma writerows_to_encodable:
  assumes "encodable_rows rows"
  shows "writerows_to written rows = (Inr (), written @ writerows_u rows)"
  using assms
proof (induction rows arbitrary: written)
  case Nil
  show ?case by (simp add: writerows_u_def)
next
  case (Cons r rows)
  then show ?case
    by (simp add: encodable_rows_def file_write_writerow_u writerows_u_def)
qed

text \<open>The rows before the first one that cannot be encoded are written, that row and the
  rows after it are not.\<close>

lemma writerows_to_unencodable:
  assumes "encodable_rows before" "\<not> list_all (list_all encodable) r"
  shows "writerows_to written (before @ r # after) =
         (Inl UnicodeEncodeError, written @ writerows_u before)"
  using assms(1)
proof (induction before arbitrary: written)
  case Nil
  show ?case using assms(2) by (simp add: writerows_u_def file_write_writerow_u)
next
  case (Cons b before)
  then show ?case
    by (simp add: encodable_rows_def file_write_writerow_u writerows_u_def)
qed

lemma encodable_HEADERS_u: "list_all (list_all encodable) HEADERS_u"
  by (simp add: HEADERS_u_def HEADERS_def ustr_def encodable_def surrogate_def)

lemma write_csv_encodable:
  assumes "encodable_rows rows"
  shows "write_csv rows = (Inr (), writerow_u HEADERS_u @ writerows_u rows)"
  using encodable_HEADERS_u
  by (simp add: write_csv_def file_write_writerow_u writerows_to_encodable [OF assms])

lemma write_csv_unencodable:
  assumes "encodable_rows before" "\<not> list_all (list_all encodable) r"
  shows "write_csv (before @ r # after) =
         (Inl UnicodeEncodeError, writerow_u HEADERS_u @ writerows_u before)"
  using encodable_HEADERS_u
  by (simp add: write_csv_def file_write_writerow_u writerows_to_unencodable [OF assms])

text \<open>
  \<^bold>\<open>C1\<close>, amended: for every sequence of rows whose fields hold no character that UTF-8
  cannot encode (no surrogate) and at most 131072 characters each (commas, quotes,
  carriage returns and line feeds included), \<^verbatim>\<open>write_rows\<close> returns without an exception,
  and \<^verbatim>\<open>read_rows\<close> then returns the same sequence, field for field and in the same order.
\<close>

theorem write_rows_read_rows_roundtrip:
  assumes "encodable_rows rows" and "within_limit_u rows"
  shows "fst (write_rows_u rows files) = Inr () \<and>
         fst (read_rows_u (snd (write_rows_u rows files))) = Inr rows"
  by (simp add: write_rows_u_def write_csv_encodable [OF assms(1)]
      read_rows_u_written [OF assms(2)])

theorem write_rows_read_rows_roundtrip_witness:
  "fst (write_rows_u
      [[ustr ''2025-01-05'', ustr ''12.50'', ustr ''Food'',
        ustr ''lunch, with '' @ [QUOTE_u, 0x416, 0x1F600, QUOTE_u, CR_u, LF_u] @ ustr ''and Bob''],
       [ustr ''2025-01-20'', ustr ''40.00'', ustr ''Transport'', []]] Map.empty) = Inr () \<and>
   fst (read_rows_u (snd (write_rows_u
      [[ustr ''2025-01-05'', ustr ''12.50'', ustr ''Food'',
        ustr ''lunch, with '' @ [QUOTE_u, 0x416, 0x1F600, QUOTE_u, CR_u, LF_u] @ ustr ''and Bob''],
       [ustr ''2025-01-20'', ustr ''40.00'', ustr ''Transport'', []]] Map.empty))) =
   Inr [[ustr ''2025-01-05'', ustr ''12.50'', ustr ''Food'',
        ustr ''lunch, with '' @ [QUOTE_u, 0x416, 0x1F600, QUOTE_u, CR_u, LF_u] @ ustr ''and Bob''],
       [ustr ''2025-01-20'', ustr ''40.00'', ustr ''Transport'', []]]"
  by (rule write_rows_read_rows_roundtrip)
    (simp_all add: encodable_rows_def within_limit_u_def field_limit_def ustr_def
      encodable_def surrogate_def)

text \<open>A description of 131073 characters is written, but the reader refuses it.\<close>

lemma csv_reader_u_long_field:
  "csv_reader_u (writerow_u HEADERS_u @
      writerows_u [[ustr ''2025-01-05'', ustr ''12.50'', ustr ''Food'', replicate 131073 0x78]]) =
   Inl CsvError"
proof -
  let ?big = "replicate 131073 (0x78 :: code_point)"
  have nospecial: "\<not> list_ex special_u (replicate n 0x78)" for n
    by (simp add: list_ex_iff special_u_def)
  have big: "csv_field_u ?big = 0x78 # replicate 131072 0x78"
    using nospecial [of 131073] by (simp add: csv_field_u_def replicate_big)
  have small: "int (length (ustr ''2025-01-05'')) \<le> field_limit"
     "int (length (ustr ''12.50'')) \<le> field_limit"
     "int (length (ustr ''Food'')) \<le> field_limit"
    by (simp_all add: field_limit_def ustr_def)
  define d a c where "d = ustr ''2025-01-05''" and "a = ustr ''12.50''" and "c = ustr ''Food''"
  have ne: "d \<noteq> []" by (simp add: d_def ustr_def)
  have "run_u parse_reset_u (writerow_u [d, a, c, ?big] @ []) =
      run_u \<lparr>state_u = START_RECORD, row_fields_u = [], field_u = []\<rparr>
        (csv_field_u d @ COMMA_u # csv_field_u a @ COMMA_u # csv_field_u c @
         COMMA_u # 0x78 # replicate 131072 0x78 @ [CR_u, LF_u])"
    using ne by (simp add: writerow_u_def parse_reset_u_def big)
  also have "\<dots> = run_u \<lparr>state_u = START_FIELD, row_fields_u = [d], field_u = []\<rparr>
        (csv_field_u a @ COMMA_u # csv_field_u c @
         COMMA_u # 0x78 # replicate 131072 0x78 @ [CR_u, LF_u])"
    using run_field_comma_u [of START_RECORD d _ "[]"] small by (simp add: d_def)
  also have "\<dots> = run_u \<lparr>state_u = START_FIELD, row_fields_u = [d, a], field_u = []\<rparr>
        (csv_field_u c @ COMMA_u # 0x78 # replicate 131072 0x78 @ [CR_u, LF_u])"
    using run_field_comma_u [of START_FIELD a _ "[d]"] small by (simp add: a_def)
  also have "\<dots> = run_u \<lparr>state_u = START_FIELD, row_fields_u = [d, a, c], field_u = []\<rparr>
        (0x78 # replicate 131072 0x78 @ [CR_u, LF_u])"
    using run_field_comma_u [of START_FIELD c _ "[d, a]"] small by (simp add: c_def)
  also have "\<dots> = run_u \<lparr>state_u = IN_FIELD, row_fields_u = [d, a, c], field_u = [0x78]\<rparr>
        (replicate 131072 0x78 @ [CR_u, LF_u])"
    by (rule run_step_u) (simp_all add: ppc_start_char_u field_limit_pos special_u_def ends_line_u_def)
  also have "\<dots> = Inl CsvError"
    by (rule run_unquoted_too_long_u) (simp_all add: field_limit_def nospecial)
  finally have row: "run_u parse_reset_u
      (writerow_u [ustr ''2025-01-05'', ustr ''12.50'', ustr ''Food'', ?big]) = Inl CsvError"
    by (simp add: d_def a_def c_def)
  have "run_u parse_reset_u (writerow_u HEADERS_u @
        writerow_u [ustr ''2025-01-05'', ustr ''12.50'', ustr ''Food'', ?big]) =
      cons_row_u HEADERS_u (run_u parse_reset_u
        (writerow_u [ustr ''2025-01-05'', ustr ''12.50'', ustr ''Food'', ?big]))"
    by (rule run_writerow_u) (rule within_limit_HEADERS_u)
  then show ?thesis
    using row by (simp add: csv_reader_u_def read_records_eq_run_u writerows_u_def cons_row_u_def)
qed

lemma encodable_replicate_x: "list_all encodable (replicate n 0x78)"
  by (simp add: list_all_iff encodable_def surrogate_def)

text \<open>
  \<^bold>\<open>C1\<close>, as the claim states it, fails in two ways.  A description of 131073 characters
  is written by \<^verbatim>\<open>write_rows\<close>, but \<^verbatim>\<open>read_rows\<close> then raises \<^verbatim>\<open>_csv.Error\<close> (field larger
  than field limit) instead of returning the rows.  A description that holds the
  surrogate \<^verbatim>\<open>U+D800\<close> makes \<^verbatim>\<open>write_rows\<close> itself raise \<^verbatim>\<open>UnicodeEncodeError\<close>, and the file
  it has opened is left with the header alone: the record that was stored is lost.
\<close>

theorem write_rows_read_rows_counterexample:
  "fst (read_rows_u (snd (write_rows_u
      [[ustr ''2025-01-05'', ustr ''12.50'', ustr ''Food'', replicate 131073 0x78]] Map.empty))) =
     Inl CsvError \<and>
   fst (write_rows_u [[ustr ''2025-01-20'', ustr ''40.00'', ustr ''Transport'', [0xD800]]]
      (snd (write_rows_u [[ustr ''2025-01-05'', ustr ''12.50'', ustr ''Food'', ustr ''lunch'']]
         Map.empty))) = Inl UnicodeEncodeError \<and>
   fst (read_rows_u (snd
     (write_rows_u [[ustr ''2025-01-20'', ustr ''40.00'', ustr ''Transport'', [0xD800]]]
      (snd (write_rows_u [[ustr ''2025-01-05'', ustr ''12.50'', ustr ''Food'', ustr ''lunch'']]
         Map.empty))))) = Inr []"
proof -
  let ?long = "[[ustr ''2025-01-05'', ustr ''12.50'', ustr ''Food'', replicate 131073 0x78]]"
  let ?bad = "[ustr ''2025-01-20'', ustr ''40.00'', ustr ''Transport'', [0xD800]]"
  let ?old = "[[ustr ''2025-01-05'', ustr ''12.50'', ustr ''Food'', ustr ''lunch'']]"
  have "encodable_rows ?long"
    using encodable_replicate_x [of 131073]
    by (simp add: encodable_rows_def ustr_def) (simp add: encodable_def surrogate_def)
  then have w: "write_rows_u ?long Map.empty =
      (Inr (), [CSV \<mapsto> writerow_u HEADERS_u @ writerows_u ?long])"
    by (simp add: write_rows_u_def write_csv_encodable)
  have 1: "fst (read_rows_u (snd (write_rows_u ?long Map.empty))) = Inl CsvError"
    unfolding w
    by (simp add: read_rows_u_def ensure_dirs_and_csv_u_def writerow_not_Nil_u
        csv_reader_u_long_field)
  have "\<not> list_all (list_all encodable) ?bad"
    by (simp add: encodable_def surrogate_def)
  from write_csv_unencodable [OF _ this, of "[]" "[]"]
  have b: "write_csv [?bad] = (Inl UnicodeEncodeError, writerow_u HEADERS_u @ writerows_u [])"
    by (simp add: encodable_rows_def)
  have 2: "write_rows_u [?bad] files =
      (Inl UnicodeEncodeError, files(CSV \<mapsto> writerow_u HEADERS_u @ writerows_u []))" for files
    by (simp add: write_rows_u_def b)
  have 3: "read_rows_u (files(CSV \<mapsto> writerow_u HEADERS_u @ writerows_u [])) =
      (Inr [], files(CSV \<mapsto> writerow_u HEADERS_u @ writerows_u []))" for files
    by (rule read_rows_u_written) (simp add: within_limit_u_def)
  show ?thesis using 1 2 3 by simp
qed

subsection \<open>The store on code points below 256\<close>

lemma of_char_specials [simp]:
  "(of_char c = COMMA_u) = (c = COMMA)" "(of_char c = QUOTE_u) = (c = QUOTE)"
  "(of_char c = CR_u) = (c = CR)" "(of_char c = LF_u) = (c = LF)"
  using of_char_eq_iff [of c COMMA, where ?'a = int] of_char_eq_iff [of c QUOTE, where ?'a = int]
    of_char_eq_iff [of c CR, where ?'a = int] of_char_eq_iff [of c LF, where ?'a = int]
  by simp_all

lemma ustr_simps [simp]:
  "ustr [] = []" "ustr (c # s) = of_char c # ustr s" "ustr (s @ t) = ustr s @ ustr t"
  "(ustr s = []) = (s = [])"
  by (simp_all add: ustr_def)

lemma ustr_eq_iff [simp]: "(ustr s = ustr t) = (s = t)"
  by (simp add: ustr_def inj_map_eq_map [OF inj_of_char])

lemma map_ustr_eq_iff [simp]: "(map ustr r = map ustr r') = (r = r')"
proof -
  have "inj ustr" by (simp add: inj_def)
  then show ?thesis by (rule inj_map_eq_map)
qed

lemma encodable_of_char: "encodable (of_char c)"
proof -
  have "(of_char c :: nat) < 256" by simp
  then have "int (of_char c) < int 256" by (simp only: of_nat_less_iff)
  then have "(of_char c :: int) < 256" by (simp add: of_nat_of_char)
  moreover have "0 \<le> int (of_char c)" by (simp only: of_nat_0_le_iff)
  then have "0 \<le> (of_char c :: int)" by (simp add: of_nat_of_char)
  ultimately show ?thesis by (simp add: encodable_def surrogate_def)
qed

lemma encodable_ustr: "list_all encodable (ustr s)"
  by (induction s) (simp_all add: encodable_of_char)

lemma special_u_of_char [simp]: "special_u (of_char c) = special c"
  by (simp add: special_u_def special_def)

lemma double_quotes_u_ustr: "double_quotes_u (ustr s) = ustr (double_quotes s)"
  by (induction s) simp_all

lemma csv_field_u_ustr: "csv_field_u (ustr s) = ustr (csv_field s)"
proof -
  have "list_ex special_u (ustr s) = list_ex special s"
    by (induction s) simp_all
  then show ?thesis by (simp add: csv_field_u_def csv_field_def double_quotes_u_ustr)
qed

lemma join_u_ustr: "join_u (ustr sep) (map ustr xs) = ustr (join sep xs)"
  by (induction sep xs rule: join.induct) simp_all

lemma writerow_u_ustr: "writerow_u (map ustr r) = ustr (writerow r)"
proof -
  have e: "(map ustr r = [[]]) = (r = [[]])"
    using map_ustr_eq_iff [of r "[[]]"] by simp
  have "join_u [COMMA_u] (map csv_field_u (map ustr r)) = ustr (join [COMMA] (map csv_field r))"
    using join_u_ustr [of "[COMMA]" "map csv_field r"] by (simp add: csv_field_u_ustr comp_def)
  then show ?thesis by (simp add: writerow_u_def writerow_def e)
qed

lemma writerows_u_ustr: "writerows_u (map (map ustr) rows) = ustr (writerows rows)"
  by (induction rows) (simp_all add: writerows_u_def writerows_def writerow_u_ustr)

lemma HEADERS_u_ustr: "writerow_u HEADERS_u = ustr (writerow HEADERS)"
  by (simp add: HEADERS_u_def writerow_u_ustr)

lemma parse_add_char_u_ureader:
  "parse_add_char_u (ureader rd) (of_char c) =
     (case parse_add_char rd c of Inl e \<Rightarrow> Inl e | Inr rd' \<Rightarrow> Inr (ureader rd'))"
  by (simp add: parse_add_char_u_def parse_add_char_def ureader_def ustr_def)

lemma parse_add_char_u_quote:
  "parse_add_char_u (ureader rd) QUOTE_u =
     (case parse_add_char rd QUOTE of Inl e \<Rightarrow> Inl e | Inr rd' \<Rightarrow> Inr (ureader rd'))"
  using parse_add_char_u_ureader [of rd QUOTE] by simp

lemma parse_save_field_u_ureader:
  "parse_save_field_u (ureader rd) = ureader (parse_save_field rd)"
  by (simp add: parse_save_field_u_def parse_save_field_def ureader_def)

lemma ureader_state [simp]:
  "state_u (ureader rd) = state rd" "ureader rd\<lparr>state_u := s\<rparr> = ureader (rd\<lparr>state := s\<rparr>)"
  by (simp_all add: ureader_def)

lemma start_field_u_ureader:
  "start_field_u (ureader rd) (map_option of_char c) =
     (case start_field rd c of Inl e \<Rightarrow> Inl e | Inr rd' \<Rightarrow> Inr (ureader rd'))"
  by (cases c)
    (simp_all add: start_field_u_def start_field_def parse_save_field_u_ureader
      parse_add_char_u_ureader split: sum.splits)

lemma parse_process_char_u_ureader:
  "parse_process_char_u (ureader rd) (map_option of_char c) =
     (case parse_process_char rd c of Inl e \<Rightarrow> Inl e | Inr rd' \<Rightarrow> Inr (ureader rd'))"
proof (cases c)
  case None
  then show ?thesis
    using start_field_u_ureader [of _ None]
    by (cases "state rd")
      (simp_all add: parse_process_char_u_def parse_process_char_def parse_save_field_u_ureader)
next
  case (Some ch)
  then show ?thesis
    using start_field_u_ureader [of _ "Some ch"]
    by (cases "state rd")
      (simp_all add: parse_process_char_u_def parse_process_char_def parse_save_field_u_ureader
        parse_add_char_u_ureader parse_add_char_u_quote split: sum.splits)
qed

lemma ends_line_u_ustr: "ends_line_u (of_char c) (ustr cs) = ends_line c cs"
  by (cases cs) (simp_all add: ends_line_u_def ends_line_def)

lemma split_lines_u_ustr: "split_lines_u (ustr s) = map ustr (split_lines s)"
  by (induction s) (simp_all add: ends_line_u_ustr split: list.splits)

lemma parse_line_u_ureader:
  "parse_line_u (ureader rd) (ustr l) =
     (case parse_line rd l of Inl e \<Rightarrow> Inl e | Inr rd' \<Rightarrow> Inr (ureader rd'))"
proof (induction l arbitrary: rd)
  case Nil
  show ?case using parse_process_char_u_ureader [of rd None] by simp
next
  case (Cons c l)
  show ?case
    using parse_process_char_u_ureader [of rd "Some c"] Cons.IH
    by (simp split: sum.splits)
qed

lemma parse_reset_u_ureader: "parse_reset_u = ureader parse_reset"
  by (simp add: parse_reset_u_def parse_reset_def ureader_def)

lemma read_records_u_ureader:
  "read_records_u (ureader rd) (map ustr ls) = uresult (read_records rd ls)"
proof (induction ls arbitrary: rd)
  case Nil
  show ?case
    by (simp add: uresult_def parse_save_field_u_ureader) (simp add: ureader_def)
next
  case (Cons l ls)
  show ?case
  proof (cases "parse_line rd l")
    case (Inl e)
    then show ?thesis using parse_line_u_ureader [of rd l] by (simp add: uresult_def)
  next
    case (Inr rd')
    then have u: "parse_line_u (ureader rd) (ustr l) = Inr (ureader rd')"
      using parse_line_u_ureader [of rd l] by simp
    have rows: "row_fields_u (ureader rd') = map ustr (row_fields rd')"
      by (simp add: ureader_def)
    show ?thesis
      using Inr u rows Cons.IH [of rd'] Cons.IH [of parse_reset]
      by (simp add: parse_reset_u_ureader [symmetric] uresult_def cons_row_u_def cons_row_def
          split: sum.splits)
  qed
qed

text \<open>On a text of code points below 256 the reader over code points is the reader of the
  first part, and so is the writer.\<close>

lemma csv_reader_u_ustr: "csv_reader_u (ustr content) = uresult (csv_reader content)"
  using read_records_u_ureader [of parse_reset "split_lines content"]
  by (simp add: csv_reader_u_def csv_reader_def split_lines_u_ustr parse_reset_u_ureader)

lemma ustore_apply [simp]: "ustore files path = map_option ustr (files path)"
  by (simp add: ustore_def)

lemma ustore_update [simp]: "ustore (files(path \<mapsto> content)) = (ustore files)(path \<mapsto> ustr content)"
  by (rule ext) simp

lemma ensure_dirs_and_csv_u_ustore:
  "ensure_dirs_and_csv_u (ustore files) = ustore (ensure_dirs_and_csv files)"
  by (cases "files CSV")
    (simp_all add: ensure_dirs_and_csv_u_def ensure_dirs_and_csv_def HEADERS_u_ustr)

text \<open>Rows of code points below 256 are always written, and the file is the one that
  \<open>write_rows\<close> gives.\<close>

lemma write_rows_u_ustore:
  "write_rows_u (map (map ustr) rows) (ustore files) = (Inr (), ustore (write_rows rows files))"
proof -
  have "encodable_rows (map (map ustr) rows)"
    by (simp add: encodable_rows_def list_all_iff encodable_ustr [unfolded list_all_iff])
  then show ?thesis
    by (simp add: write_rows_u_def write_csv_encodable write_rows_def HEADERS_u_ustr
        writerows_u_ustr)
qed

text \<open>Reading a file of code points below 256 gives what \<open>read_rows\<close> gives.\<close>

lemma read_rows_u_ustore:
  "read_rows_u (ustore files) =
     (uresult (fst (read_rows files)), ustore (snd (read_rows files)))"
proof -
  have "ensure_dirs_and_csv files CSV \<noteq> None"
    by (cases "files CSV") (simp_all add: ensure_dirs_and_csv_def Let_def)
  then obtain content where c: "ensure_dirs_and_csv files CSV = Some content"
    by blast
  then have u: "ustore (ensure_dirs_and_csv files) CSV = Some (ustr content)"
    by simp
  have h: "(map ustr r = HEADERS_u) = (r = HEADERS)" for r
    by (simp add: HEADERS_u_def)
  show ?thesis
  proof (cases "csv_reader content")
    case (Inl e)
    then show ?thesis
      using c u
      by (simp add: read_rows_u_def read_rows_def ensure_dirs_and_csv_u_ustore csv_reader_u_ustr
          uresult_def Let_def del: ustore_apply)
  next
    case (Inr rows)
    then show ?thesis
      using c u
      by (cases rows)
        (simp_all add: read_rows_u_def read_rows_def ensure_dirs_and_csv_u_ustore
          csv_reader_u_ustr uresult_def Let_def h del: ustore_apply)
  qed
qed

subsection \<open>What the reader returns fits its own limit\<close>

lemma parse_add_char_ok:
  assumes "parse_add_char rd c = Inr rd'" "reader_ok rd"
  shows "reader_ok rd'" "state rd' = state rd"
  using assms by (auto simp: parse_add_char_def reader_ok_def split: if_splits)

lemma parse_save_field_ok: "reader_ok rd \<Longrightarrow> reader_ok (parse_save_field rd)"
  by (simp add: parse_save_field_def reader_ok_def field_limit_def)

lemma reader_ok_state [simp]: "reader_ok (rd\<lparr>state := st\<rparr>) = reader_ok rd"
  by (simp add: reader_ok_def)

lemma start_field_ok:
  assumes "start_field rd c = Inr rd'" "reader_ok rd"
  shows "reader_ok rd'"
  using assms parse_save_field_ok [of rd] parse_add_char_ok(1) [of rd]
  by (auto simp: start_field_def split: option.splits if_splits sum.splits)

lemma parse_process_char_ok:
  assumes "parse_process_char rd c = Inr rd'" "reader_ok rd"
  shows "reader_ok rd'"
proof (cases "state rd")
  case START_RECORD
  then show ?thesis
    using assms start_field_ok [of "rd\<lparr>state := START_FIELD\<rparr>" c rd']
    by (auto simp: parse_process_char_def split: if_splits)
next
  case START_FIELD
  then show ?thesis
    using assms start_field_ok [of rd c rd'] by (simp add: parse_process_char_def)
next
  case IN_FIELD
  then show ?thesis
    using assms parse_save_field_ok [of rd] parse_add_char_ok(1) [of rd]
    by (auto simp: parse_process_char_def split: option.splits if_splits)
next
  case IN_QUOTED_FIELD
  then show ?thesis
    using assms parse_add_char_ok(1) [of rd]
    by (auto simp: parse_process_char_def split: option.splits if_splits)
next
  case QUOTE_IN_QUOTED_FIELD
  then show ?thesis
    using assms parse_save_field_ok [of rd] parse_add_char_ok(1) [of rd]
    by (auto simp: parse_process_char_def split: option.splits if_splits sum.splits)
next
  case EAT_CRNL
  then show ?thesis
    using assms by (auto simp: parse_process_char_def split: option.splits if_splits)
qed

lemma parse_line_ok:
  assumes "parse_line rd l = Inr rd'" "reader_ok rd"
  shows "reader_ok rd'"
  using assms
proof (induction l arbitrary: rd)
  case Nil
  then show ?case using parse_process_char_ok [of rd None rd'] by simp
next
  case (Cons c l)
  then show ?case
    using parse_process_char_ok [of rd "Some c"] by (auto split: sum.splits)
qed

lemma reader_ok_reset: "reader_ok parse_reset"
  by (simp add: reader_ok_def parse_reset_def field_limit_def)

lemma read_records_ok:
  assumes "read_records rd ls = Inr rows" "reader_ok rd"
  shows "within_limit rows"
  using assms
proof (induction ls arbitrary: rd rows)
  case Nil
  then show ?case
    using parse_save_field_ok [of rd]
    by (auto simp: within_limit_def reader_ok_def split: if_splits)
next
  case (Cons l ls)
  show ?case
  proof (cases "parse_line rd l")
    case (Inl e)
    with Cons.prems show ?thesis by simp
  next
    case (Inr rd')
    have ok: "reader_ok rd'" using parse_line_ok [OF Inr Cons.prems(2)] .
    show ?thesis
    proof (cases "state rd' = START_RECORD")
      case True
      then obtain rs where rs: "read_records parse_reset ls = Inr rs" "rows = row_fields rd' # rs"
        using Cons.prems(1) Inr by (auto simp: cons_row_def split: sum.splits)
      have "within_limit rs" using Cons.IH [OF rs(1) reader_ok_reset] .
      then show ?thesis using rs(2) ok by (simp add: within_limit_def reader_ok_def)
    next
      case False
      then have "read_records rd' ls = Inr rows" using Cons.prems(1) Inr by simp
      then show ?thesis using Cons.IH ok by blast
    qed
  qed
qed

lemma read_rows_within_limit:
  assumes "read_rows files = (Inr rows, files')"
  shows "within_limit rows"
proof -
  obtain content all_rows where c: "csv_reader content = Inr all_rows"
    and r: "rows = all_rows \<or> (\<exists>h. all_rows = h # rows)"
    using assms
    by (auto simp: read_rows_def Let_def split: option.splits sum.splits list.splits if_splits)
  have "within_limit all_rows"
    using read_records_ok [OF _ reader_ok_reset] c by (simp add: csv_reader_def)
  then show ?thesis using r by (auto simp: within_limit_def)
qed

lemma ensure_idem: "ensure_dirs_and_csv (ensure_dirs_and_csv files) = ensure_dirs_and_csv files"
  by (auto simp: ensure_dirs_and_csv_def Let_def writerow_not_Nil split: option.splits)

lemma read_rows_snd: "snd (read_rows files) = ensure_dirs_and_csv files"
  by (auto simp: read_rows_def Let_def split: option.splits sum.splits list.splits)

lemma read_rows_again:
  assumes "read_rows files = (res, files')"
  shows "read_rows files' = (res, files')"
proof -
  have f: "files' = ensure_dirs_and_csv files" using read_rows_snd [of files] assms by simp
  show ?thesis
    using assms unfolding f read_rows_def ensure_idem Let_def by simp
qed



subsection \<open>Deleting and editing by index\<close>

lemma display_lines_records:
  assumes "list_all (\<lambda>r. length r = 4) rows"
  shows "\<exists>ls. display_lines idx rows = Inr ls"
  using assms
proof (induction rows arbitrary: idx)
  case Nil
  show ?case by simp
next
  case (Cons r rows)
  obtain ls where "display_lines (Suc idx) rows = Inr ls"
    using Cons.IH [of "Suc idx"] Cons.prems by auto
  then show ?case using Cons.prems by simp
qed

lemma format_expense_table_records:
  assumes "list_all (\<lambda>r. length r = 4) rows"
  shows "\<exists>table. format_expense_table rows = Inr table"
  using display_lines_records [OF assms, of 0]
  by (auto simp: format_expense_table_def)

lemma within_limit_delete:
  assumes "within_limit rows"
  shows "within_limit (take i rows @ drop (Suc i) rows)"
  using assms unfolding within_limit_def list_all_iff
  by (auto dest: in_set_takeD in_set_dropD)

lemma nth_delete:
  assumes "i < length rows"
  shows "length (take i rows @ drop (Suc i) rows) = length rows - 1"
    and "j < i \<Longrightarrow> (take i rows @ drop (Suc i) rows) ! j = rows ! j"
    and "i \<le> j \<Longrightarrow> j < length rows - 1 \<Longrightarrow> (take i rows @ drop (Suc i) rows) ! j = rows ! Suc j"
  using assms by (auto simp: nth_append min_def)

text \<open>
  \<^bold>\<open>C4\<close>: for a stored sequence of \<open>N\<close> records and an index \<open>i\<close> with \<open>0 \<le> i < N\<close>,
  \<^verbatim>\<open>delete_by_index\<close> reports the record that stood at \<open>i\<close> and persists a sequence of
  \<open>N - 1\<close> records: those before \<open>i\<close> keep their positions, those after \<open>i\<close> move down by
  one, with values unchanged and in order.
\<close>

theorem delete_by_index_shifts:
  assumes "read_rows files = (Inr rows, files')"
    and "list_all (\<lambda>r. length r = 4) rows"
    and "py_int (strip line) = Some i"
    and "0 \<le> i" and "i < int (length rows)"
  shows "\<exists>files'' rows'.
           delete_by_index files (line # rest) = (Inr (Deleted (rows ! nat i)), files'') \<and>
           read_rows files'' = (Inr rows', files'') \<and>
           rows' = take (nat i) rows @ drop (Suc (nat i)) rows \<and>
           length rows' = length rows - 1 \<and>
           (\<forall>j. j < nat i \<longrightarrow> rows' ! j = rows ! j) \<and>
           (\<forall>j. nat i \<le> j \<and> j < length rows' \<longrightarrow> rows' ! j = rows ! Suc j)"
proof -
  let ?rows' = "take (nat i) rows @ drop (Suc (nat i)) rows"
  have ne: "rows \<noteq> []" using assms(4,5) by auto
  have i: "nat i < length rows" using assms(4,5) by simp
  obtain table where t: "format_expense_table rows = Inr table"
    using format_expense_table_records [OF assms(2)] by blast
  have del: "delete_by_index files (line # rest) =
      (Inr (Deleted (rows ! nat i)), write_rows ?rows' files')"
    using assms(1,3,4,5) ne t by (simp add: delete_by_index_def)
  have "within_limit ?rows'"
    using within_limit_delete [OF read_rows_within_limit [OF assms(1)]] .
  then have readback: "read_rows (write_rows ?rows' files') = (Inr ?rows', write_rows ?rows' files')"
    by (rule read_rows_write_rows)
  show ?thesis
    using del readback nth_delete [OF i] by auto
qed

lemma within_limit_example: "within_limit example_store"
  by (simp add: within_limit_def example_store_def field_limit_def)

lemma read_example:
  "read_rows (write_rows example_store Map.empty) =
     (Inr example_store, write_rows example_store Map.empty)"
  by (rule read_rows_write_rows) (rule within_limit_example)

theorem delete_by_index_shifts_witness:
  "fst (delete_by_index (write_rows example_store Map.empty) [''1'']) =
     Inr (Deleted [''2025-01-20'', ''40.00'', ''Transport'', ''bus pass'']) \<and>
   fst (read_rows (snd (delete_by_index (write_rows example_store Map.empty) [''1'']))) =
     Inr [[''2025-01-05'', ''12.50'', ''Food'', ''lunch''],
          [''2025-02-01'', ''9.99'', ''Food'', ''snack'']]"
proof -
  have len: "list_all (\<lambda>r. length r = 4) example_store"
    by (simp add: example_store_def)
  have idx: "py_int (strip ''1'') = Some 1" by code_simp
  have range: "(0::int) \<le> 1" "(1::int) < int (length example_store)"
    by (simp_all add: example_store_def)
  from delete_by_index_shifts [OF read_example len idx range, of "[]"]
  show ?thesis by (auto simp: example_store_def)
qed



lemma unpack4_records:
  assumes "length r = 4"
  shows "\<exists>d amt cat desc. r = [d, amt, cat, desc] \<and> unpack4 r = Inr (d, amt, cat, desc)"
  using assms by (auto simp: length_Suc_conv numeral_eq_Suc)






subsection \<open>Aggregation\<close>

lemma example_category_table:
  "(case totals_loop category_key [] example_store of
      Inl e \<Rightarrow> []
    | Inr t \<Rightarrow> summary_table ''Category'' t) =
   [[''Category'', ''Total''], [''Food'', ''22.49''], [''Transport'', ''40.00'']]"
  by code_simp

lemma example_month_table:
  "(case totals_loop month_key [] example_store of
      Inl e \<Rightarrow> []
    | Inr t \<Rightarrow> summary_table ''Month (YYYY-MM)'' t) =
   [[''Month (YYYY-MM)'', ''Total''], [''2025-01'', ''52.50''], [''2025-02'', ''9.99'']]"
  by code_simp

lemma example_total:
  "(case total_loop zero example_store of Inl e \<Rightarrow> [] | Inr t \<Rightarrow> format_2f t) = ''62.49''"
  by code_simp

lemma totals_loop_skip:
  assumes "list_all (\<lambda>r. length r = 4) rows"
  shows "totals_loop key totals rows = totals_loop key totals (filter parseable rows)"
  using assms
proof (induction rows arbitrary: totals)
  case Nil
  show ?case by simp
next
  case (Cons r rows)
  then obtain d amt cat desc where r: "r = [d, amt, cat, desc]"
    using unpack4_records [of r] by auto
  show ?case
    using Cons unfolding r by (cases "py_float amt") simp_all
qed

lemma totals_loop_records:
  assumes "list_all (\<lambda>r. length r = 4) rows"
  shows "\<exists>t. totals_loop key totals rows = Inr t"
  using assms
proof (induction rows arbitrary: totals)
  case Nil
  show ?case by simp
next
  case (Cons r rows)
  then obtain d amt cat desc where r: "r = [d, amt, cat, desc]"
    using unpack4_records [of r] by auto
  show ?case
    using Cons unfolding r by (cases "py_float amt") simp_all
qed

lemma total_loop_skip:
  assumes "list_all (\<lambda>r. length r = 4) rows"
  shows "total_loop tot rows = total_loop tot (filter parseable rows)"
  using assms
proof (induction rows arbitrary: tot)
  case Nil
  show ?case by simp
next
  case (Cons r rows)
  then obtain d amt cat desc where r: "r = [d, amt, cat, desc]"
    using unpack4_records [of r] by auto
  show ?case
    using Cons unfolding r by (cases "py_float amt") simp_all
qed

lemma total_loop_records:
  assumes "list_all (\<lambda>r. length r = 4) rows"
  shows "\<exists>t. total_loop tot rows = Inr t"
  using assms
proof (induction rows arbitrary: tot)
  case Nil
  show ?case by simp
next
  case (Cons r rows)
  then obtain d amt cat desc where r: "r = [d, amt, cat, desc]"
    using unpack4_records [of r] by auto
  show ?case
    using Cons unfolding r by (cases "py_float amt") simp_all
qed

lemma summarize_records:
  assumes "read_rows files = (Inr rows, files')"
    and "list_all (\<lambda>r. length r = 4) rows"
  shows "\<exists>t. totals_loop key [] (filter parseable rows) = Inr t \<and>
           summarize key title files =
             (if rows = [] then Inr NoExpenses else Inr (Table (summary_table title t)), files')"
proof -
  obtain t where t: "totals_loop key [] rows = Inr t"
    using totals_loop_records [OF assms(2)] by blast
  then have "totals_loop key [] (filter parseable rows) = Inr t"
    using totals_loop_skip [OF assms(2)] by simp
  then show ?thesis
    using assms(1) t by (auto simp: summarize_def)
qed

text \<open>
  \<^bold>\<open>C6\<close>: on a store of four-field records no aggregation raises, and each one (by
  category, by date, by month, and the grand total) gives what it gives on the records
  with a parseable amount alone; the store, read again after the aggregation, still
  holds every record, the unparsable ones verbatim.
\<close>

theorem aggregation_skips_unparsable:
  assumes "read_rows files = (Inr rows, files')"
    and "list_all (\<lambda>r. length r = 4) rows"
  shows "\<exists>cats dates months tot.
           totals_loop category_key [] (filter parseable rows) = Inr cats \<and>
           totals_loop date_key [] (filter parseable rows) = Inr dates \<and>
           totals_loop month_key [] (filter parseable rows) = Inr months \<and>
           total_loop zero (filter parseable rows) = Inr tot \<and>
           summarize_by_category files =
             (if rows = [] then Inr NoExpenses
              else Inr (Table (summary_table ''Category'' cats)), files') \<and>
           summarize_by_date files =
             (if rows = [] then Inr NoExpenses
              else Inr (Table (summary_table ''Date'' dates)), files') \<and>
           summarize_by_month files =
             (if rows = [] then Inr NoExpenses
              else Inr (Table (summary_table ''Month (YYYY-MM)'' months)), files') \<and>
           show_total files =
             (if rows = [] then Inr NoExpenses else Inr (OverallTotal (format_2f tot)), files') \<and>
           read_rows files' = (Inr rows, files')"
proof -
  obtain cats where cats: "totals_loop category_key [] (filter parseable rows) = Inr cats"
      "summarize category_key ''Category'' files =
         (if rows = [] then Inr NoExpenses
          else Inr (Table (summary_table ''Category'' cats)), files')"
    using summarize_records [OF assms] by blast
  obtain dates where dates: "totals_loop date_key [] (filter parseable rows) = Inr dates"
      "summarize date_key ''Date'' files =
         (if rows = [] then Inr NoExpenses
          else Inr (Table (summary_table ''Date'' dates)), files')"
    using summarize_records [OF assms] by blast
  obtain months where months: "totals_loop month_key [] (filter parseable rows) = Inr months"
      "summarize month_key ''Month (YYYY-MM)'' files =
         (if rows = [] then Inr NoExpenses
          else Inr (Table (summary_table ''Month (YYYY-MM)'' months)), files')"
    using summarize_records [OF assms] by blast
  obtain tot where tot: "total_loop zero rows = Inr tot"
    using total_loop_records [OF assms(2)] by blast
  then have tot': "total_loop zero (filter parseable rows) = Inr tot"
    using total_loop_skip [OF assms(2)] by simp
  have st: "show_total files =
      (if rows = [] then Inr NoExpenses else Inr (OverallTotal (format_2f tot)), files')"
    using assms(1) tot by (auto simp: show_total_def)
  show ?thesis
    using cats dates months tot' st read_rows_again [OF assms(1)]
    by (simp add: summarize_by_category_def summarize_by_date_def summarize_by_month_def)
qed

theorem aggregation_skips_unparsable_witness:
  "fst (summarize_by_category
     (write_rows (example_store @ [[''2025-03-01'', ''n/a'', ''Food'', ''lost receipt'']]) Map.empty)) =
     Inr (Table [[''Category'', ''Total''], [''Food'', ''22.49''], [''Transport'', ''40.00'']]) \<and>
   fst (show_total
     (write_rows (example_store @ [[''2025-03-01'', ''n/a'', ''Food'', ''lost receipt'']]) Map.empty)) =
     Inr (OverallTotal ''62.49'') \<and>
   fst (read_rows (snd (show_total
     (write_rows (example_store @ [[''2025-03-01'', ''n/a'', ''Food'', ''lost receipt'']]) Map.empty)))) =
     Inr (example_store @ [[''2025-03-01'', ''n/a'', ''Food'', ''lost receipt'']])"
proof -
  let ?rows = "example_store @ [[''2025-03-01'', ''n/a'', ''Food'', ''lost receipt'']]"
  let ?files = "write_rows ?rows Map.empty"
  have rd: "read_rows ?files = (Inr ?rows, ?files)"
    by (rule read_rows_write_rows)
      (simp add: within_limit_def example_store_def field_limit_def)
  have len: "list_all (\<lambda>r. length r = 4) ?rows"
    by (simp add: example_store_def)
  have ne: "?rows \<noteq> []" by simp
  have flt: "filter parseable ?rows = example_store"
    by code_simp
  obtain cats tot where
    c: "totals_loop category_key [] (filter parseable ?rows) = Inr cats" and
    t: "total_loop zero (filter parseable ?rows) = Inr tot" and
    sc: "summarize_by_category ?files =
      (if ?rows = [] then Inr NoExpenses
       else Inr (Table (summary_table ''Category'' cats)), ?files)" and
    st: "show_total ?files =
      (if ?rows = [] then Inr NoExpenses else Inr (OverallTotal (format_2f tot)), ?files)" and
    again: "read_rows ?files = (Inr ?rows, ?files)"
    using aggregation_skips_unparsable [OF rd len] by blast
  have "summary_table ''Category'' cats =
      [[''Category'', ''Total''], [''Food'', ''22.49''], [''Transport'', ''40.00'']]"
    using example_category_table c unfolding flt by simp
  moreover have "format_2f tot = ''62.49''"
    using example_total t unfolding flt by simp
  ultimately show ?thesis
    using sc st again by simp
qed

text \<open>
  \<^bold>\<open>C3\<close>: on the store of the scenario the summary by category shows \<^verbatim>\<open>Food\<close> 22.49 and
  \<^verbatim>\<open>Transport\<close> 40.00, the summary by month shows \<^verbatim>\<open>2025-01\<close> 52.50 and \<^verbatim>\<open>2025-02\<close> 9.99,
  and the grand total shows 62.49; the sums are binary64 sums, compared as the program
  displays them, with two decimals.
\<close>

theorem scenario_totals:
  "fst (summarize_by_category (write_rows example_store Map.empty)) =
     Inr (Table [[''Category'', ''Total''], [''Food'', ''22.49''], [''Transport'', ''40.00'']]) \<and>
   fst (summarize_by_month (write_rows example_store Map.empty)) =
     Inr (Table [[''Month (YYYY-MM)'', ''Total''], [''2025-01'', ''52.50''], [''2025-02'', ''9.99'']]) \<and>
   fst (show_total (write_rows example_store Map.empty)) = Inr (OverallTotal ''62.49'')"
proof -
  have ne: "example_store \<noteq> []" by (simp add: example_store_def)
  have "fst (summarize_by_category (write_rows example_store Map.empty)) =
     Inr (Table [[''Category'', ''Total''], [''Food'', ''22.49''], [''Transport'', ''40.00'']])"
    using example_category_table read_example ne
    by (simp add: summarize_by_category_def summarize_def split: sum.splits)
  moreover have "fst (summarize_by_month (write_rows example_store Map.empty)) =
     Inr (Table [[''Month (YYYY-MM)'', ''Total''], [''2025-01'', ''52.50''], [''2025-02'', ''9.99'']])"
    using example_month_table read_example ne
    by (simp add: summarize_by_month_def summarize_def split: sum.splits)
  moreover have "fst (show_total (write_rows example_store Map.empty)) = Inr (OverallTotal ''62.49'')"
    using example_total read_example ne
    by (simp add: show_total_def split: sum.splits)
  ultimately show ?thesis by simp
qed

subsection \<open>Export\<close>

lemma of_char_digit_char:
  assumes "0 \<le> d" "d \<le> 9"
  shows "(of_char (digit_char d) :: nat) = 48 + nat d"
proof -
  have "48 + d = int (48 + nat d)" using assms by simp
  then have "digit_char d = char_of (48 + nat d)"
    unfolding digit_char_def by (simp only: char_of_nat)
  then show ?thesis using assms by simp
qed

lemma digit_char_order:
  assumes "0 \<le> a" "a \<le> 9" "0 \<le> b" "b \<le> 9"
  shows "digit_char a < digit_char b \<longleftrightarrow> a < b"
    and "digit_char a = digit_char b \<longleftrightarrow> a = b"
proof -
  show "digit_char a < digit_char b \<longleftrightarrow> a < b"
    using assms by (simp add: less_char_def of_char_digit_char) linarith
  have "digit_char a = digit_char b \<longleftrightarrow>
      (of_char (digit_char a) :: nat) = of_char (digit_char b)"
    by simp
  then show "digit_char a = digit_char b \<longleftrightarrow> a = b"
    using assms by (simp only: of_char_digit_char) auto
qed

lemma div_mod_10_order:
  fixes a b :: int
  shows "(a div 10 < b div 10 \<or> a div 10 = b div 10 \<and> a mod 10 < b mod 10) \<longleftrightarrow> a < b"
    and "(a div 10 = b div 10 \<and> a mod 10 = b mod 10) \<longleftrightarrow> a = b"
proof -
  define x y u v where "x = a div 10" and "y = a mod 10" and "u = b div 10" and "v = b mod 10"
  have a: "a = 10 * x + y" and y: "0 \<le> y" "y < 10"
    by (simp_all add: x_def y_def)
  have b: "b = 10 * u + v" and v: "0 \<le> v" "v < 10"
    by (simp_all add: u_def v_def)
  show "(a div 10 < b div 10 \<or> a div 10 = b div 10 \<and> a mod 10 < b mod 10) \<longleftrightarrow> a < b"
    unfolding x_def [symmetric] y_def [symmetric] u_def [symmetric] v_def [symmetric]
    using a b y v by auto
  show "(a div 10 = b div 10 \<and> a mod 10 = b mod 10) \<longleftrightarrow> a = b"
    by (metis a b x_def y_def u_def v_def)
qed

lemma div_mod_100_order:
  fixes a b :: int
  shows "(a div 100 < b div 100 \<or> a div 100 = b div 100 \<and> a mod 100 < b mod 100) \<longleftrightarrow> a < b"
    and "(a div 100 = b div 100 \<and> a mod 100 = b mod 100) \<longleftrightarrow> a = b"
proof -
  define x y u v where "x = a div 100" and "y = a mod 100" and "u = b div 100" and "v = b mod 100"
  have a: "a = 100 * x + y" and y: "0 \<le> y" "y < 100"
    by (simp_all add: x_def y_def)
  have b: "b = 100 * u + v" and v: "0 \<le> v" "v < 100"
    by (simp_all add: u_def v_def)
  show "(a div 100 < b div 100 \<or> a div 100 = b div 100 \<and> a mod 100 < b mod 100) \<longleftrightarrow> a < b"
    unfolding x_def [symmetric] y_def [symmetric] u_def [symmetric] v_def [symmetric]
    using a b y v by auto
  show "(a div 100 = b div 100 \<and> a mod 100 = b mod 100) \<longleftrightarrow> a = b"
    by (metis a b x_def y_def u_def v_def)
qed

lemma two_digits_order:
  assumes "0 \<le> a" "a \<le> 99" "0 \<le> b" "b \<le> 99"
  shows "two_digits a < two_digits b \<longleftrightarrow> a < b"
    and "two_digits a = two_digits b \<longleftrightarrow> a = b"
proof -
  have r: "0 \<le> a div 10" "a div 10 \<le> 9" "0 \<le> a mod 10" "a mod 10 \<le> 9"
      "0 \<le> b div 10" "b div 10 \<le> 9" "0 \<le> b mod 10" "b mod 10 \<le> 9"
    using assms by auto
  show "two_digits a < two_digits b \<longleftrightarrow> a < b"
    using div_mod_10_order(1) [of a b] by (simp add: two_digits_def digit_char_order r)
  show "two_digits a = two_digits b \<longleftrightarrow> a = b"
    using div_mod_10_order(2) [of a b] by (simp add: two_digits_def digit_char_order r)
qed

lemma length_two_digits [simp]: "length (two_digits n) = 2"
  by (simp add: two_digits_def)

lemma div_mod_base:
  fixes n d k :: int
  assumes "0 \<le> d" "d < k"
  shows "(k * n + d) div k = n" "(k * n + d) mod k = d"
  using assms by (simp_all add: div_pos_pos_trivial)

lemma show_nat_digit:
  assumes "0 \<le> d" "d < 10"
  shows "show_nat d = [digit_char d]"
  using assms by (subst show_nat.simps) simp

lemma show_nat_step:
  assumes "0 \<le> d" "d < 10" "0 < n"
  shows "show_nat (10 * n + d) = show_nat n @ [digit_char d]"
proof -
  have "\<not> 10 * n + d < 10" using assms by simp
  then show ?thesis
    using assms(1,2)
    by (subst show_nat.simps) (simp add: div_mod_base [OF assms(1,2)] mod_pos_pos_trivial)
qed

lemma two_digits_pair:
  assumes "0 \<le> d" "d < 10"
  shows "two_digits (10 * n + d) = [digit_char n, digit_char d]"
  using assms by (simp add: two_digits_def div_mod_base [OF assms] mod_pos_pos_trivial)

lemma show_nat_year:
  assumes "1000 \<le> y" "y \<le> 9999"
  shows "show_nat y = two_digits (y div 100) @ two_digits (y mod 100)"
proof -
  define h l where "h = y div 100" and "l = y mod 100"
  define a b c d where "a = h div 10" and "b = h mod 10" and "c = l div 10" and "d = l mod 10"
  have y: "y = 100 * h + l" and l: "0 \<le> l" "l < 100"
    by (simp_all add: h_def l_def)
  have h: "10 \<le> h" using assms unfolding h_def by simp
  have hab: "h = 10 * a + b" and b: "0 \<le> b" "b < 10"
    by (simp_all add: a_def b_def)
  have lcd: "l = 10 * c + d" and d: "0 \<le> d" "d < 10"
    by (simp_all add: c_def d_def)
  have a: "0 < a" using h hab b by simp
  have a9: "a < 10" using assms y l hab b by simp
  have c: "0 \<le> c" "c < 10" using l lcd d by simp_all
  have "y = 10 * (10 * (10 * a + b) + c) + d"
    using y hab lcd by simp
  then have "show_nat y = show_nat (10 * (10 * (10 * a + b) + c) + d)" by simp
  also have "\<dots> = show_nat (10 * (10 * a + b) + c) @ [digit_char d]"
    using d a b c by (intro show_nat_step) simp_all
  also have "show_nat (10 * (10 * a + b) + c) = show_nat (10 * a + b) @ [digit_char c]"
    using a b c by (intro show_nat_step) simp_all
  also have "show_nat (10 * a + b) = show_nat a @ [digit_char b]"
    using a b by (intro show_nat_step) simp_all
  also have "show_nat a = [digit_char a]"
    using a a9 by (intro show_nat_digit) simp_all
  finally have "show_nat y = [digit_char a, digit_char b, digit_char c, digit_char d]"
    by simp
  moreover have "two_digits h = [digit_char a, digit_char b]"
    unfolding hab using b by (rule two_digits_pair)
  moreover have "two_digits l = [digit_char c, digit_char d]"
    unfolding lcd using d by (rule two_digits_pair)
  ultimately show ?thesis by (simp add: h_def l_def)
qed

lemma append_less_same_length:
  fixes xs ys :: "'a::linorder list"
  assumes "length xs = length ys"
  shows "xs @ us < ys @ vs \<longleftrightarrow> xs < ys \<or> (xs = ys \<and> us < vs)"
  using assms by (induction xs ys rule: list_induct2) auto

lemma strftime_blocks:
  assumes "valid_datetime t"
  shows "strftime t =
     two_digits (year t div 100) @ two_digits (year t mod 100) @ two_digits (month t) @
     two_digits (day t) @ ''_'' @ two_digits (hour t) @ two_digits (minute t) @
     two_digits (second t)"
  using assms show_nat_year [of "year t"] by (simp add: strftime_def valid_datetime_def)

lemma length_strftime:
  assumes "valid_datetime t"
  shows "length (strftime t) = 15"
  by (simp add: strftime_blocks [OF assms])

lemma strftime_sortable:
  assumes "valid_datetime s" "valid_datetime t"
  shows "strftime s < strftime t \<longleftrightarrow> earlier s t"
proof -
  have ys: "0 \<le> year s div 100" "year s div 100 \<le> 99" "0 \<le> year s mod 100" "year s mod 100 \<le> 99"
    and yt: "0 \<le> year t div 100" "year t div 100 \<le> 99" "0 \<le> year t mod 100" "year t mod 100 \<le> 99"
    using assms by (auto simp: valid_datetime_def)
  have rest: "0 \<le> month s" "month s \<le> 99" "0 \<le> month t" "month t \<le> 99"
      "0 \<le> day s" "day s \<le> 99" "0 \<le> day t" "day t \<le> 99"
      "0 \<le> hour s" "hour s \<le> 99" "0 \<le> hour t" "hour t \<le> 99"
      "0 \<le> minute s" "minute s \<le> 99" "0 \<le> minute t" "minute t \<le> 99"
      "0 \<le> second s" "second s \<le> 99" "0 \<le> second t" "second t \<le> 99"
    using assms by (simp_all add: valid_datetime_def)
  have ylt: "(year s div 100 < year t div 100 \<or>
        year s div 100 = year t div 100 \<and> year s mod 100 < year t mod 100) \<longleftrightarrow> year s < year t"
    by (rule div_mod_100_order)
  have yeq: "(year s div 100 = year t div 100 \<and> year s mod 100 = year t mod 100) \<longleftrightarrow>
        year s = year t"
    by (rule div_mod_100_order)
  have "strftime s < strftime t \<longleftrightarrow>
      (year s div 100 < year t div 100 \<or> year s div 100 = year t div 100 \<and>
        (year s mod 100 < year t mod 100 \<or> year s mod 100 = year t mod 100 \<and>
          (month s < month t \<or> month s = month t \<and>
            (day s < day t \<or> day s = day t \<and>
              (hour s < hour t \<or> hour s = hour t \<and>
                (minute s < minute t \<or> minute s = minute t \<and> second s < second t))))))"
    unfolding strftime_blocks [OF assms(1)] strftime_blocks [OF assms(2)]
    by (simp add: append_less_same_length two_digits_order ys yt rest)
  then show ?thesis
    using ylt yeq unfolding earlier_def by blast
qed

lemma REPORTS_DIR_eq: "REPORTS_DIR = ''data/reports''"
  by (simp add: REPORTS_DIR_def CSV_DIR_def)

text \<open>
  \<^bold>\<open>C7\<close>, as the claim states it, fails: on no rows \<^verbatim>\<open>export_rows\<close> raises nothing, it prints
  \<^verbatim>\<open>Nothing to export.\<close> and returns; and a row that holds the surrogate \<^verbatim>\<open>U+D800\<close> makes it
  raise \<^verbatim>\<open>UnicodeEncodeError\<close>, the file that it leaves holding the header alone.
\<close>

theorem export_rows_counterexample:
  "export_rows \<lparr>year = 2025, month = 11, day = 3, hour = 7, minute = 4, second = 5\<rparr>
      Map.empty [] = (Inr NothingToExport, Map.empty) \<and>
   export_rows \<lparr>year = 2025, month = 11, day = 3, hour = 7, minute = 4, second = 5\<rparr>
      Map.empty [[ustr ''2025-01-20'', ustr ''40.00'', ustr ''Transport'', [0xD800]]] =
     (Inl UnicodeEncodeError,
      [''data/reports/20251103_070405_export.csv'' \<mapsto> writerow_u HEADERS_u])"
proof -
  let ?now = "\<lparr>year = 2025, month = 11, day = 3, hour = 7, minute = 4, second = 5\<rparr>"
  let ?bad = "[ustr ''2025-01-20'', ustr ''40.00'', ustr ''Transport'', [0xD800]]"
  have s: "strftime ?now = ''20251103_070405''" by code_simp
  have "\<not> list_all (list_all encodable) ?bad"
    by (simp add: encodable_def surrogate_def)
  from write_csv_unencodable [OF _ this, of "[]" "[]"]
  have b: "write_csv [?bad] = (Inl UnicodeEncodeError, writerow_u HEADERS_u)"
    by (simp add: encodable_rows_def writerows_u_def)
  show ?thesis
    unfolding export_rows_def Let_def b by (simp add: s REPORTS_DIR_eq)
qed

text \<open>
  \<^bold>\<open>C7\<close>, amended: \<^verbatim>\<open>export_rows\<close> on no rows reports that there is nothing to export,
  returns without an exception and leaves the file system as it is; on rows whose fields
  hold no character that UTF-8 cannot encode it writes the file
  \<^verbatim>\<open>data/reports/<stamp>_export.csv\<close> with the header and then the rows in their order
  (read back as such when the fields fit the reader's limit).  For a clock with a
  four-digit year the stamp has 15 characters and the order of the stamps is the order of
  the times, second by second.
\<close>

theorem export_rows_snapshot:
  "export_rows now files [] = (Inr NothingToExport, files) \<and>
   (rows \<noteq> [] \<and> encodable_rows rows \<longrightarrow>
      export_rows now files rows =
        (Inr (Exported (length rows) (''data/reports/'' @ strftime now @ ''_export.csv'')),
         files(''data/reports/'' @ strftime now @ ''_export.csv'' \<mapsto>
                 writerow_u HEADERS_u @ writerows_u rows))) \<and>
   (within_limit_u rows \<longrightarrow>
      csv_reader_u (writerow_u HEADERS_u @ writerows_u rows) = Inr (HEADERS_u # rows)) \<and>
   (valid_datetime now \<longrightarrow> length (strftime now) = 15) \<and>
   (valid_datetime now \<and> valid_datetime later \<longrightarrow>
      (strftime now < strftime later \<longleftrightarrow> earlier now later))"
proof (intro conjI impI)
  show "export_rows now files [] = (Inr NothingToExport, files)"
    by (simp add: export_rows_def)
  show "export_rows now files rows =
        (Inr (Exported (length rows) (''data/reports/'' @ strftime now @ ''_export.csv'')),
         files(''data/reports/'' @ strftime now @ ''_export.csv'' \<mapsto>
                 writerow_u HEADERS_u @ writerows_u rows))"
    if "rows \<noteq> [] \<and> encodable_rows rows"
    using that by (simp add: export_rows_def REPORTS_DIR_eq Let_def write_csv_encodable)
  show "csv_reader_u (writerow_u HEADERS_u @ writerows_u rows) = Inr (HEADERS_u # rows)"
    if "within_limit_u rows"
    using csv_reader_writerows_u [of "HEADERS_u # rows"] that within_limit_HEADERS_u
    by (simp add: within_limit_u_def writerows_u_def)
  show "length (strftime now) = 15" if "valid_datetime now"
    using that by (rule length_strftime)
  show "strftime now < strftime later \<longleftrightarrow> earlier now later"
    if "valid_datetime now \<and> valid_datetime later"
    using that strftime_sortable by blast
qed

theorem export_rows_snapshot_witness:
  "fst (export_rows \<lparr>year = 2025, month = 11, day = 3, hour = 7, minute = 4, second = 5\<rparr>
          Map.empty (map (map ustr) example_store)) =
     Inr (Exported 3 ''data/reports/20251103_070405_export.csv'') \<and>
   map_option csv_reader_u
     (snd (export_rows \<lparr>year = 2025, month = 11, day = 3, hour = 7, minute = 4, second = 5\<rparr>
          Map.empty (map (map ustr) example_store))
        ''data/reports/20251103_070405_export.csv'') =
     Some (Inr (HEADERS_u # map (map ustr) example_store)) \<and>
   strftime \<lparr>year = 2025, month = 11, day = 3, hour = 7, minute = 4, second = 5\<rparr> <
     strftime \<lparr>year = 2025, month = 11, day = 3, hour = 7, minute = 4, second = 6\<rparr>"
proof -
  let ?now = "\<lparr>year = 2025, month = 11, day = 3, hour = 7, minute = 4, second = 5\<rparr>"
  let ?later = "\<lparr>year = 2025, month = 11, day = 3, hour = 7, minute = 4, second = 6\<rparr>"
  let ?rows = "map (map ustr) example_store"
  have ne: "?rows \<noteq> []" by (simp add: example_store_def)
  have enc: "encodable_rows ?rows"
    by (simp add: encodable_rows_def list_all_iff encodable_ustr [unfolded list_all_iff])
  have lim: "within_limit_u ?rows"
    by (simp add: within_limit_u_def example_store_def field_limit_def)
  have v: "valid_datetime ?now \<and> valid_datetime ?later"
    by (simp add: valid_datetime_def)
  have e: "earlier ?now ?later" by (simp add: earlier_def)
  have s: "strftime ?now = ''20251103_070405''" by code_simp
  have l: "length example_store = 3" by (simp add: example_store_def)
  from export_rows_snapshot [of ?now Map.empty ?rows ?later]
  show ?thesis using ne enc lim v e s l by simp
qed

subsection \<open>Where the program departs from the specification\<close>

text \<open>
  \<^bold>\<open>C8\<close>: the claim does not hold of \<^verbatim>\<open>add_expense\<close>.  With the amount answered as
  \<^verbatim>\<open>12.5\<close>, the row that is appended holds \<^verbatim>\<open>12.5\<close>, the \<^verbatim>\<open>str\<close> of the rounded float, and
  not \<^verbatim>\<open>12.50\<close>; \<^verbatim>\<open>edit_by_index\<close> formats the amount with \<^verbatim>\<open>.2f\<close> before it writes.
\<close>

theorem add_expense_stores_str_of_float:
  "fst (add_expense fromisoformat ''2025-01-05'' (ensure_dirs_and_csv Map.empty)
          [[], ''12.5'', ''Food'', ''lunch'']) = Inr Saved \<and>
   snd (add_expense fromisoformat ''2025-01-05'' (ensure_dirs_and_csv Map.empty)
          [[], ''12.5'', ''Food'', ''lunch'']) CSV =
     Some (''Date,Amount,Category,Description'' @ [CR, LF] @
           ''2025-01-05,12.5,Food,lunch'' @ [CR, LF])"
proof -
  have d: "ask_date fromisoformat ''2025-01-05'' [[], ''12.5'', ''Food'', ''lunch''] =
      Inr (''2025-01-05'', [''12.5'', ''Food'', ''lunch''])"
    by (simp add: strip_def strip_with_def)
  have a: "(case ask_amount [''12.5'', ''Food'', ''lunch''] of
        Inl e \<Rightarrow> None | Inr (amt, rest) \<Rightarrow> Some (float_repr amt, rest)) =
      Some (''12.5'', [''Food'', ''lunch''])"
    by code_simp
  have s: "strip ''Food'' = ''Food''" "strip ''lunch'' = ''lunch''"
    by code_simp+
  have w: "writerow [''2025-01-05'', ''12.5'', ''Food'', ''lunch''] =
      ''2025-01-05,12.5,Food,lunch'' @ [CR, LF]"
    by code_simp
  have h: "ensure_dirs_and_csv Map.empty CSV = Some (''Date,Amount,Category,Description'' @ [CR, LF])"
    by code_simp
  obtain amt where amt: "ask_amount [''12.5'', ''Food'', ''lunch''] = Inr (amt, [''Food'', ''lunch''])"
      "float_repr amt = ''12.5''"
    using a by (auto split: sum.splits)
  show ?thesis
    using d amt s w h by (simp add: add_expense_def)
qed

text \<open>
  \<^bold>\<open>C9\<close>: the claim does not hold.  A row that does not have four fields makes the tuple
  assignment raise \<^verbatim>\<open>ValueError\<close>, which nothing catches: in \<^verbatim>\<open>filter_rows\<close>, in the \<^verbatim>\<open>for\<close>
  statement of every aggregation (outside its \<^verbatim>\<open>try\<close>) and in \<^verbatim>\<open>edit_by_index\<close>.
\<close>

theorem short_row_raises_ValueError:
  "filter_rows [[''2025-01-05'', ''12.50'', ''Food'']] None None None None = Inl ValueError \<and>
   fst (summarize_by_category (write_rows [[''2025-01-05'', ''12.50'', ''Food'']] Map.empty)) =
     Inl ValueError \<and>
   fst (summarize_by_date (write_rows [[''2025-01-05'', ''12.50'', ''Food'']] Map.empty)) =
     Inl ValueError \<and>
   fst (summarize_by_month (write_rows [[''2025-01-05'', ''12.50'', ''Food'']] Map.empty)) =
     Inl ValueError \<and>
   fst (show_total (write_rows [[''2025-01-05'', ''12.50'', ''Food'']] Map.empty)) =
     Inl ValueError \<and>
   fst (edit_by_index fromisoformat
          (write_rows [[''2025-01-05'', ''12.50'', ''Food'']] Map.empty) [''0'']) =
     Inl ValueError"
proof -
  let ?rows = "[[''2025-01-05'', ''12.50'', ''Food'']]"
  have rd: "read_rows (write_rows ?rows Map.empty) = (Inr ?rows, write_rows ?rows Map.empty)"
    by (rule read_rows_write_rows) (simp add: within_limit_def field_limit_def)
  have i: "py_int (strip ''0'') = Some 0" by code_simp
  have "fst (edit_by_index fromisoformat (write_rows ?rows Map.empty) [''0'']) = Inl ValueError"
    using rd i by (simp add: edit_by_index_def format_expense_table_def split: sum.splits)
  then show ?thesis
    using rd
    by (simp add: filter_rows_def summarize_by_category_def summarize_by_date_def
        summarize_by_month_def summarize_def show_total_def)
qed

end
